theory Spec2Isabelle
  imports Complex_Main "HOL-Library.Multiset"
begin

section \<open>Constants and data of \<^verbatim>\<open>ps4/fserial.c\<close>\<close>

text \<open>
  The C type \<^verbatim>\<open>double\<close> is modelled by \<^typ>\<open>real\<close>: arithmetic is exact, and a
  division whose divisor is zero (an infinity or a NaN in the C program) is an explicit
  error result of the model. The C type \<^verbatim>\<open>int\<close> is modelled by \<^typ>\<open>int\<close>, and by
  \<^typ>\<open>nat\<close> for counters, counts and offsets, which never leave the range of the
  machine type for populations within the arrays' capacity. A mutable C array is a total
  map from indices to elements; the capacity \<^verbatim>\<open>MAX_N_BODY\<close> is not checked by the
  program and is not part of the model.
\<close>

type_synonym 'a array = "nat \<Rightarrow> 'a"

datatype error =
    NotFinite   \<comment> \<open>a division by zero: the C value is an infinity or a NaN\<close>
  | Undefined   \<comment> \<open>behaviour that C leaves undefined (an integer conversion out of range)\<close>

definition TIME_INTERVAL :: nat where "TIME_INTERVAL = 128"
definition G :: real where "G = 1"
definition N_DIM :: nat where "N_DIM = 3"
definition NP :: nat where "NP = 8"
definition CUTOFF_SQR :: real where "CUTOFF_SQR = 25"
definition EPSILON :: real where "EPSILON = 1 / 1000000"

definition ALL_ONES :: "int list" where
  "ALL_ONES = [1, 1, 1, 1, 1, 1, 1, 1]"

definition octant_dims :: "int list list" where
  "octant_dims =
     [[-1, -1, -1], [1, -1, -1], [-1, 1, -1], [1, 1, -1],
      [-1, -1, 1], [1, -1, 1], [-1, 1, 1], [1, 1, 1]]"

text \<open>An array \<^verbatim>\<open>double[N_DIM]\<close>: three components, read and written by index.\<close>

datatype vec3 = Vec3 real real real

fun vget :: "vec3 \<Rightarrow> nat \<Rightarrow> real" where
  "vget (Vec3 a b c) k = (if k = 0 then a else if k = 1 then b else c)"

fun vset :: "vec3 \<Rightarrow> nat \<Rightarrow> real \<Rightarrow> vec3" where
  "vset (Vec3 a b c) k r =
     (if k = 0 then Vec3 r b c else if k = 1 then Vec3 a r c else Vec3 a b r)"

record Body =
  mass :: real
  x :: vec3
  v :: vec3

text \<open>
  The library function \<^verbatim>\<open>pow\<close> of \<^verbatim>\<open>math.h\<close>: a power with a natural number as
  exponent is the repeated product (also for a negative base); any other exponent is the
  real power, which the program only takes of a sum of squares.
\<close>

definition pow :: "real \<Rightarrow> real \<Rightarrow> real" where
  "pow b e = (if 0 \<le> e \<and> e = real_of_int \<lfloor>e\<rfloor> then b ^ nat \<lfloor>e\<rfloor> else b powr e)"

text \<open>
  The call \<^verbatim>\<open>abs(dist)\<close>: \<^verbatim>\<open>abs\<close> is the function of \<^verbatim>\<open>stdlib.h\<close> on \<^verbatim>\<open>int\<close>, so
  the \<^verbatim>\<open>double\<close> argument is first converted to \<^verbatim>\<open>int\<close>, truncating toward zero; the
  conversion is undefined when the truncated value is not an \<^verbatim>\<open>int\<close>, and so is the
  absolute value of the least \<^verbatim>\<open>int\<close>.
\<close>

definition abs_int :: "real \<Rightarrow> error + int" where
  "abs_int d =
     (let t = (if d < 0 then \<lceil>d\<rceil> else \<lfloor>d\<rfloor>)
      in if - (2 ^ 31) < t \<and> t < 2 ^ 31 then Inr \<bar>t\<bar> else Inl Undefined)"

text \<open>A loop whose body can fail stops at the first failure.\<close>

fun foldE :: "('a \<Rightarrow> 's \<Rightarrow> error + 's) \<Rightarrow> 'a list \<Rightarrow> 's \<Rightarrow> error + 's" where
  "foldE f [] s = Inr s"
| "foldE f (a # as) s = (case f a s of Inl e \<Rightarrow> Inl e | Inr s' \<Rightarrow> foldE f as s')"

fun mapE :: "('a \<Rightarrow> error + 'b) \<Rightarrow> 'a list \<Rightarrow> error + 'b list" where
  "mapE f [] = Inr []"
| "mapE f (a # as) =
     (case f a of
        Inl e \<Rightarrow> Inl e
      | Inr b \<Rightarrow> (case mapE f as of Inl e \<Rightarrow> Inl e | Inr bs \<Rightarrow> Inr (b # bs)))"

section \<open>Domain partitioner\<close>

definition get_octant_rank :: "vec3 \<Rightarrow> int" where
  "get_octant_rank dims =
     (if vget dims 2 > 0 then 1 else 0) * 4 + (if vget dims 1 > 0 then 1 else 0) * 2
       + (if vget dims 0 > 0 then 1 else 0)"

section \<open>Ghost candidate test\<close>

text \<open>The inner loop of \<^verbatim>\<open>shouldSend\<close>: the value of \<^verbatim>\<open>dist\<close> for octant \<open>oc\<close>.\<close>

definition boundary_dist :: "vec3 \<Rightarrow> nat \<Rightarrow> real" where
  "boundary_dist ps oc =
     fold (\<lambda>k dist. if real_of_int (octant_dims ! oc ! k) * vget ps k < 0
                     then dist + pow (vget ps k) 2 else dist) [0..<N_DIM] 0"

definition shouldSend :: "vec3 \<Rightarrow> int array \<Rightarrow> error + int array" where
  "shouldSend ps transmit =
     foldE (\<lambda>oc transmit.
        let dist = boundary_dist ps oc in
        case abs_int dist of
          Inl e \<Rightarrow> Inl e
        | Inr a \<Rightarrow>
            if real_of_int a < EPSILON \<or> dist > CUTOFF_SQR then Inr (transmit(oc := 0))
            else Inr (transmit(oc := 1)))
       [0..<NP] transmit"

section \<open>Force kernel\<close>

text \<open>
  The kernel takes two pointers, each into the array \<^verbatim>\<open>bodies\<close> or into the array
  \<^verbatim>\<open>recvbuf\<close>, and compares them before it reads what they point to.
\<close>

datatype body_ptr = In_bodies nat | In_recvbuf nat

fun deref :: "Body array \<Rightarrow> Body array \<Rightarrow> body_ptr \<Rightarrow> Body" where
  "deref bs rb (In_bodies i) = bs i"
| "deref bs rb (In_recvbuf j) = rb j"

text \<open>The values of the local variables \<^verbatim>\<open>r2\<close> and \<^verbatim>\<open>tmp\<close> of the kernel.\<close>

definition r2_of :: "Body \<Rightarrow> Body \<Rightarrow> real" where
  "r2_of this that =
     pow (vget (x this) 0 - vget (x that) 0) 2 + pow (vget (x this) 1 - vget (x that) 1) 2
       + pow (vget (x this) 2 - vget (x that) 2) 2"

definition tmp_of :: "Body \<Rightarrow> Body \<Rightarrow> real" where
  "tmp_of this that = (G * mass this * mass that) / pow (r2_of this that) 1.5"

definition compute_force_as_vector ::
    "Body array \<Rightarrow> Body array \<Rightarrow> body_ptr \<Rightarrow> body_ptr \<Rightarrow> vec3 \<Rightarrow> error + vec3" where
  "compute_force_as_vector bs rb this that vec =
     (if this = that then Inr vec
      else
        let bi = deref bs rb this; bj = deref bs rb that in
        if r2_of bi bj > CUTOFF_SQR then Inr vec
        else if pow (r2_of bi bj) 1.5 = 0 then Inl NotFinite
        else Inr (fold (\<lambda>k vec. vset vec k (vget vec k + tmp_of bi bj * (vget (x bj) k - vget (x bi) k)))
                    [0..<N_DIM] vec))"

section \<open>Centroids\<close>

definition zero_centroid :: Body where
  "zero_centroid = \<lparr>mass = 0, x = Vec3 0 0 0, v = Vec3 0 0 0\<rparr>"

text \<open>The accumulation loop of \<^verbatim>\<open>get_centroid\<close>, on the pair of \<^verbatim>\<open>sum_n_body\<close> and \<^verbatim>\<open>centroid\<close>.\<close>

definition centroid_add :: "int list \<Rightarrow> Body array \<Rightarrow> nat \<Rightarrow> int \<times> Body \<Rightarrow> int \<times> Body" where
  "centroid_add n_bodies bs i = (\<lambda>(sum_n_body, centroid).
     (sum_n_body + n_bodies ! (i mod NP),
      fold (\<lambda>k c. c\<lparr>x := vset (x c) k (vget (x c) k + mass (bs i) * vget (x (bs i)) k),
                    v := vset (v c) k
                           (vget (v c) k + real_of_int (n_bodies ! (i mod NP)) * vget (v (bs i)) k)\<rparr>)
        [0..<N_DIM] (centroid\<lparr>mass := mass centroid + mass (bs i)\<rparr>)))"

text \<open>The final loop of \<^verbatim>\<open>get_centroid\<close>: two divisions for each dimension.\<close>

definition centroid_div :: "int \<Rightarrow> nat \<Rightarrow> Body \<Rightarrow> error + Body" where
  "centroid_div sum_n_body k c =
     (if mass c = 0 then Inl NotFinite
      else let c1 = c\<lparr>x := vset (x c) k (vget (x c) k / mass c)\<rparr> in
        if sum_n_body = 0 then Inl NotFinite
        else Inr (c1\<lparr>v := vset (v c1) k (vget (v c1) k / real_of_int sum_n_body)\<rparr>))"

definition get_centroid :: "nat \<Rightarrow> int list \<Rightarrow> Body array \<Rightarrow> error + Body" where
  "get_centroid N n_bodies bs =
     (if N = 0 then Inr zero_centroid
      else
        let (sum_n_body, centroid) = fold (centroid_add n_bodies bs) [0..<N] (0, zero_centroid)
        in foldE (centroid_div sum_n_body) [0..<N_DIM] centroid)"

text \<open>The value \<^verbatim>\<open>report\<close> prints: the centroid of the \<^verbatim>\<open>NP\<close> gathered local centroids.\<close>

definition report :: "int list \<Rightarrow> Body array \<Rightarrow> error + Body" where
  "report n_bodies centroids = get_centroid NP n_bodies centroids"

text \<open>
  The loop that turns counts into displacements, written four times in \<^verbatim>\<open>main\<close>:
  \<^verbatim>\<open>sum = 0; for (j = 0; j < NP; ++ j) { displ[j] = sum; sum += count[j]; }\<close>
\<close>

definition offsets :: "nat array \<Rightarrow> nat array \<Rightarrow> nat array \<times> nat" where
  "offsets counts displ =
     fold (\<lambda>j (displ, s). (displ(j := s), s + counts j)) [0..<NP] (displ, 0)"

section \<open>Ghost exchange: what a process sends\<close>

text \<open>The first loop over the bodies: the number of bodies to send to each octant.\<close>

definition count_sends ::
    "nat \<Rightarrow> Body array \<Rightarrow> int array \<times> nat array \<Rightarrow> error + (int array \<times> nat array)" where
  "count_sends n bs =
     foldE (\<lambda>i (transmit, send_count).
        case shouldSend (x (bs i)) transmit of
          Inl e \<Rightarrow> Inl e
        | Inr transmit \<Rightarrow>
            Inr (transmit,
                 fold (\<lambda>j send_count. if transmit j \<noteq> 0 then send_count(j := send_count j + 1)
                                        else send_count) [0..<NP] send_count))
       [0..<n]"

text \<open>The second loop over the bodies: the send buffer, filled through \<^verbatim>\<open>ptrs\<close>.\<close>

definition fill_sends ::
    "nat \<Rightarrow> Body array \<Rightarrow> int array \<times> nat array \<times> Body array
       \<Rightarrow> error + (int array \<times> nat array \<times> Body array)" where
  "fill_sends n bs =
     foldE (\<lambda>i (transmit, ptrs, sendbuf).
        case shouldSend (x (bs i)) transmit of
          Inl e \<Rightarrow> Inl e
        | Inr transmit \<Rightarrow>
            Inr (let (ptrs, sendbuf) =
                       fold (\<lambda>j (ptrs, sendbuf).
                               if transmit j \<noteq> 0 then (ptrs(j := ptrs j + 1), sendbuf(ptrs j := bs i))
                               else (ptrs, sendbuf)) [0..<NP] (ptrs, sendbuf)
                 in (transmit, ptrs, sendbuf)))
       [0..<n]"

section \<open>Force accumulation and integration\<close>

text \<open>
  The force on \<^verbatim>\<open>bodies[i]\<close>: the kernel is called for every local index and then for
  every received body.
\<close>

definition accumulate_force ::
    "nat \<Rightarrow> Body array \<Rightarrow> nat \<Rightarrow> Body array \<Rightarrow> nat \<Rightarrow> error + vec3" where
  "accumulate_force n bs m rb i =
     (case foldE (\<lambda>j F. compute_force_as_vector bs rb (In_bodies i) (In_bodies j) F)
             [0..<n] (Vec3 0 0 0) of
        Inl e \<Rightarrow> Inl e
      | Inr F \<Rightarrow>
          foldE (\<lambda>j F. compute_force_as_vector bs rb (In_bodies i) (In_recvbuf j) F) [0..<m] F)"

definition integrate :: "real \<Rightarrow> vec3 \<Rightarrow> Body \<Rightarrow> error + Body" where
  "integrate DT F b =
     foldE (\<lambda>k b.
        if mass b = 0 then Inl NotFinite
        else
          let b1 = b\<lparr>v := vset (v b) k (vget (v b) k + vget F k * (DT / 2) / mass b)\<rparr>
          in Inr (b1\<lparr>x := vset (x b1) k (vget (x b1) k + vget (v b1) k * DT)\<rparr>))
       [0..<N_DIM] b"

text \<open>
  One iteration of the loop over the local bodies: force, integration in place, and the
  flag of the body in \<^verbatim>\<open>exile\<close> with its count in \<^verbatim>\<open>send_count\<close>.
\<close>

definition update_body ::
    "real \<Rightarrow> nat \<Rightarrow> nat \<Rightarrow> Body array \<Rightarrow> nat \<Rightarrow> nat
       \<Rightarrow> Body array \<times> nat array \<times> int array \<Rightarrow> error + (Body array \<times> nat array \<times> int array)" where
  "update_body DT rnk n rb m i = (\<lambda>(bs, send_count, exile).
     case accumulate_force n bs m rb i of
       Inl e \<Rightarrow> Inl e
     | Inr F \<Rightarrow>
         (case integrate DT F (bs i) of
            Inl e \<Rightarrow> Inl e
          | Inr b \<Rightarrow>
              let bs = bs(i := b); i_oct = get_octant_rank (x (bs i)) in
              if i_oct \<noteq> int rnk
              then Inr (bs, send_count(nat i_oct := send_count (nat i_oct) + 1), exile(i := i_oct))
              else Inr (bs, send_count, exile(i := - 1))))"

definition update_bodies ::
    "real \<Rightarrow> nat \<Rightarrow> nat \<Rightarrow> Body array \<Rightarrow> nat
       \<Rightarrow> Body array \<times> nat array \<times> int array \<Rightarrow> error + (Body array \<times> nat array \<times> int array)" where
  "update_bodies DT rnk n rb m = foldE (update_body DT rnk n rb m) [0..<n]"

section \<open>Migration: the loops\<close>

text \<open>The send buffer of the migration: the bodies flagged in \<^verbatim>\<open>exile\<close>, by destination.\<close>

definition fill_exiles ::
    "nat \<Rightarrow> Body array \<Rightarrow> int array \<Rightarrow> nat array \<times> Body array \<Rightarrow> nat array \<times> Body array" where
  "fill_exiles n bs exile =
     fold (\<lambda>i (ptrs, sendbuf).
        let i_oct = exile i in
        if i_oct < 0 then (ptrs, sendbuf)
        else (ptrs(nat i_oct := ptrs (nat i_oct) + 1), sendbuf(ptrs (nat i_oct) := bs i)))
       [0..<n]"

text \<open>
  After the exchange the bodies that stay are copied behind the received ones, and the
  receive buffer becomes the new array of bodies.
\<close>

definition keep_retained ::
    "nat \<Rightarrow> Body array \<Rightarrow> int array \<Rightarrow> nat \<times> Body array \<Rightarrow> nat \<times> Body array" where
  "keep_retained n bs exile =
     fold (\<lambda>j (i, recvbuf). if exile j < 0 then (i + 1, recvbuf(i := bs j)) else (i, recvbuf))
       [0..<n]"

section \<open>Blocks of an array\<close>

definition slice :: "'a array \<Rightarrow> nat \<Rightarrow> nat \<Rightarrow> 'a list" where
  "slice a off n = map a [off..<off + n]"

definition blit :: "'a list \<Rightarrow> nat \<Rightarrow> 'a array \<Rightarrow> 'a array" where
  "blit bl off a = (\<lambda>i. if off \<le> i \<and> i < off + length bl then bl ! (i - off) else a i)"

section \<open>The state of one process\<close>

text \<open>
  The variables of \<^verbatim>\<open>main\<close> that live across the phases of a timestep. The arrays
  \<^verbatim>\<open>send_count\<close>, \<^verbatim>\<open>send_displ\<close>, \<^verbatim>\<open>recv_count\<close>, \<^verbatim>\<open>recv_displ\<close> and
  \<^verbatim>\<open>transmit\<close> have \<^verbatim>\<open>NP\<close> elements; \<^verbatim>\<open>sum_c\<close> is the variable \<^verbatim>\<open>sum\<close>.
\<close>

record proc =
  rank :: nat
  n_body :: nat
  bodies :: "Body array"
  transmit :: "int array"
  exile :: "int array"
  send_count :: "nat array"
  send_displ :: "nat array"
  recv_count :: "nat array"
  recv_displ :: "nat array"
  sendbuf :: "Body array"
  recvbuf :: "Body array"
  sum_c :: nat

text \<open>The bodies a process holds: \<^verbatim>\<open>bodies[0]\<close> to \<^verbatim>\<open>bodies[n_body - 1]\<close>.\<close>

definition local_store :: "proc \<Rightarrow> Body list" where
  "local_store p = map (bodies p) [0..<n_body p]"

definition ghost_prepare :: "proc \<Rightarrow> error + proc" where
  "ghost_prepare p =
     (case count_sends (n_body p) (bodies p) (transmit p, \<lambda>_. 0) of
        Inl e \<Rightarrow> Inl e
      | Inr (transmit1, send_count1) \<Rightarrow>
          (let (send_displ1, s) = offsets send_count1 (send_displ p) in
           (case fill_sends (n_body p) (bodies p) (transmit1, send_displ1, sendbuf p) of
              Inl e \<Rightarrow> Inl e
            | Inr (transmit2, ptrs2, sendbuf2) \<Rightarrow>
                Inr (p\<lparr>transmit := transmit2, send_count := send_count1,
                       send_displ := send_displ1, sendbuf := sendbuf2, sum_c := s\<rparr>))))"

section \<open>The collective exchange\<close>

text \<open>
  The two collective operations of the MPI library, as the MPI standard defines them, for
  the processes \<open>ps\<close> listed by rank. \<^verbatim>\<open>MPI_Alltoall\<close> of one \<^verbatim>\<open>int\<close>: the receive count
  that the process of rank \<open>r\<close> has for sender \<open>s\<close> is the send count of \<open>s\<close> for \<open>r\<close>.
  \<^verbatim>\<open>MPI_Alltoallv\<close>: the block that sender \<open>s\<close> holds for the receiver, at the sender's
  displacement for it, is copied into the receive buffer at the receiver's displacement
  for \<open>s\<close>.
\<close>

definition MPI_Alltoall :: "proc list \<Rightarrow> proc \<Rightarrow> nat array" where
  "MPI_Alltoall ps p =
     (\<lambda>s. if s < length ps then send_count (ps ! s) (rank p) else recv_count p s)"

definition MPI_Alltoallv :: "proc list \<Rightarrow> proc \<Rightarrow> Body array" where
  "MPI_Alltoallv ps p =
     fold (\<lambda>s rb. blit (slice (sendbuf (ps ! s)) (send_displ (ps ! s) (rank p))
                          (send_count (ps ! s) (rank p)))
                     (recv_displ p s) rb)
       [0..<NP] (recvbuf p)"

text \<open>
  One round of the exchange for all processes: the counts, the receive displacements
  with their total in \<^verbatim>\<open>sum\<close>, then the bodies.
\<close>

definition exchange :: "proc list \<Rightarrow> proc list" where
  "exchange ps =
     map (\<lambda>p.
        let rc = MPI_Alltoall ps p;
            (rd, s) = offsets rc (recv_displ p);
            p1 = p\<lparr>recv_count := rc, recv_displ := rd, sum_c := s\<rparr>
        in p1\<lparr>recvbuf := MPI_Alltoallv ps p1\<rparr>) ps"

section \<open>Integration and migration of one process\<close>

definition update :: "real \<Rightarrow> proc \<Rightarrow> error + proc" where
  "update DT p =
     (case update_bodies DT (rank p) (n_body p) (recvbuf p) (sum_c p)
             (bodies p, \<lambda>_. 0, exile p) of
        Inl e \<Rightarrow> Inl e
      | Inr (bs, sc, ex) \<Rightarrow> Inr (p\<lparr>bodies := bs, send_count := sc, exile := ex\<rparr>))"

definition migrate_prepare :: "proc \<Rightarrow> proc" where
  "migrate_prepare p =
     (let (send_displ1, s) = offsets (send_count p) (send_displ p);
          (ptrs1, sendbuf1) = fill_exiles (n_body p) (bodies p) (exile p) (send_displ1, sendbuf p)
      in p\<lparr>send_displ := send_displ1, sendbuf := sendbuf1, sum_c := s\<rparr>)"

definition absorb :: "proc \<Rightarrow> proc" where
  "absorb p =
     (let (i, recvbuf1) = keep_retained (n_body p) (bodies p) (exile p) (sum_c p, recvbuf p)
      in p\<lparr>recvbuf := recvbuf1,
            bodies := (\<lambda>j. if j < i then recvbuf1 j else bodies p j),
            n_body := i\<rparr>)"

definition migration_round :: "proc list \<Rightarrow> proc list" where
  "migration_round ps = map absorb (exchange (map migrate_prepare ps))"

section \<open>One timestep of all processes\<close>

text \<open>
  The body of the loop over \<^verbatim>\<open>t\<close> up to the end of the integration, and the whole body.
  The periodic report reads the bodies and writes only \<^verbatim>\<open>recvbuf\<close> of rank 0, which the
  ghost exchange overwrites before it is read; it is not part of the step.
\<close>

definition integration_phase :: "real \<Rightarrow> proc list \<Rightarrow> error + proc list" where
  "integration_phase DT ps =
     (case mapE ghost_prepare ps of
        Inl e \<Rightarrow> Inl e
      | Inr ps1 \<Rightarrow> mapE (update DT) (exchange ps1))"

definition timestep :: "real \<Rightarrow> proc list \<Rightarrow> error + proc list" where
  "timestep DT ps =
     (case integration_phase DT ps of
        Inl e \<Rightarrow> Inl e
      | Inr ps1 \<Rightarrow> Inr (migration_round ps1))"

text \<open>The processes are listed by rank, one for each of the \<^verbatim>\<open>NP\<close> octants.\<close>

definition by_rank :: "proc list \<Rightarrow> bool" where
  "by_rank ps = (length ps = NP \<and> map rank ps = [0..<NP])"

text \<open>The loop over \<^verbatim>\<open>t\<close> of \<^verbatim>\<open>main\<close>: \<open>K\<close> timesteps.\<close>

fun run :: "nat \<Rightarrow> real \<Rightarrow> proc list \<Rightarrow> error + proc list" where
  "run 0 DT ps = Inr ps"
| "run (Suc K) DT ps = (case timestep DT ps of Inl e \<Rightarrow> Inl e | Inr ps' \<Rightarrow> run K DT ps')"

section \<open>The flags of the migration\<close>

text \<open>
  What the integration loop leaves in \<^verbatim>\<open>exile\<close> and \<^verbatim>\<open>send_count\<close>: the flag of a body
  is \<open>-1\<close> when its octant is the rank of the process, and its octant otherwise, and the
  count for an octant is the number of bodies flagged with it.
\<close>

definition flagged :: "proc \<Rightarrow> bool" where
  "flagged p =
     ((\<forall>i<n_body p. exile p i =
          (if get_octant_rank (x (bodies p i)) = int (rank p) then - 1
           else get_octant_rank (x (bodies p i))))
      \<and> (\<forall>oc. send_count p oc = length (filter (\<lambda>i. exile p i = int oc) [0..<n_body p])))"

text \<open>The bodies of a process that are flagged for octant \<open>r\<close>, and those that stay.\<close>

definition emigrants :: "proc \<Rightarrow> nat \<Rightarrow> Body list" where
  "emigrants p r = map (bodies p) (filter (\<lambda>i. exile p i = int r) [0..<n_body p])"

definition retained :: "proc \<Rightarrow> Body list" where
  "retained p = map (bodies p) (filter (\<lambda>i. exile p i < 0) [0..<n_body p])"

section \<open>The force between two bodies, as the specification states it\<close>

text \<open>
  The contribution of a body \<open>bj\<close> to component \<open>k\<close> of the force on a body \<open>bi\<close>: zero
  beyond the cutoff, and otherwise \<open>G \<cdot> mass\<^sub>i \<cdot> mass\<^sub>j / (r\<^sup>2)\<^sup>1\<^sup>.\<^sup>5 \<cdot> (position\<^sub>j - position\<^sub>i)\<close>.
\<close>

definition spec_pair_force :: "Body \<Rightarrow> Body \<Rightarrow> nat \<Rightarrow> real" where
  "spec_pair_force bi bj k =
     (if r2_of bi bj > CUTOFF_SQR then 0
      else G * mass bi * mass bj / (r2_of bi bj powr 1.5) * (vget (x bj) k - vget (x bi) k))"

section \<open>Examples\<close>

text \<open>Two bodies of one octant, one unit apart.\<close>

abbreviation (input) pair_bodies :: "Body array" where
  "pair_bodies \<equiv> (\<lambda>j. if j = 0 then \<lparr>mass = 1, x = Vec3 1 1 1, v = Vec3 0 0 0\<rparr>
                        else \<lparr>mass = 1, x = Vec3 2 1 1, v = Vec3 0 0 0\<rparr>)"

text \<open>
  Eight processes, of which the one of rank 7 holds two bodies: one that moves into
  octant 6 in a step of size 1, and one that stays, farther than the cutoff from the first.
\<close>

definition example_procs :: "proc list" where
  "example_procs =
     map (\<lambda>r. \<lparr>rank = r, n_body = (if r = 7 then 2 else 0),
               bodies = (\<lambda>i. if i = 0 then \<lparr>mass = 1, x = Vec3 1 1 1, v = Vec3 (- 2) 0 0\<rparr>
                              else \<lparr>mass = 1, x = Vec3 7 1 1, v = Vec3 0 0 0\<rparr>),
               transmit = (\<lambda>_. 0), exile = (\<lambda>_. 0),
               send_count = (\<lambda>_. 0), send_displ = (\<lambda>_. 0),
               recv_count = (\<lambda>_. 0), recv_displ = (\<lambda>_. 0),
               sendbuf = (\<lambda>_. zero_centroid), recvbuf = (\<lambda>_. zero_centroid), sum_c = 0\<rparr>)
       [0..<NP]"

section \<open>Properties\<close>

lemma foldE_append:
  "foldE f (as @ bs) s = (case foldE f as s of Inl e \<Rightarrow> Inl e | Inr s' \<Rightarrow> foldE f bs s')"
  by (induction as arbitrary: s) (auto split: sum.splits)

lemma foldE_upt_Suc:
  "foldE f [0..<Suc n] s = (case foldE f [0..<n] s of Inl e \<Rightarrow> Inl e | Inr s' \<Rightarrow> f n s')"
  by (simp add: foldE_append split: sum.splits)

lemma upt_N_DIM: "[0..<N_DIM] = [0, 1, 2]"
  by (simp add: N_DIM_def upt_rec)

lemma upt_NP: "[0..<NP] = [0, 1, 2, 3, 4, 5, 6, 7]"
  by (simp add: NP_def upt_rec)

lemma sum_NP:
  "(\<Sum>i<NP. f i) = f 0 + f 1 + f 2 + f 3 + f 4 + f 5 + f 6 + (f 7 :: 'a :: comm_monoid_add)"
  by (simp add: NP_def eval_nat_numeral lessThan_Suc add.assoc add.commute add.left_commute)

lemma pow_2: "pow b 2 = b * b"
  by (simp add: pow_def power2_eq_square)

lemma pow_3_2: "pow b (3 / 2) = b powr (3 / 2)"
proof -
  have "\<lfloor>3 / 2 :: real\<rfloor> = 1" by linarith
  then show ?thesis by (simp add: pow_def)
qed

lemma vget_Vec3 [simp]:
  "vget (Vec3 a b c) 0 = a" "vget (Vec3 a b c) (Suc 0) = b" "vget (Vec3 a b c) 1 = b" "vget (Vec3 a b c) 2 = c"
  by simp_all

lemma Vec3_vget: "Vec3 (vget u 0) (vget u 1) (vget u 2) = u"
  by (cases u) simp

lemma centroid_add_step:
  "centroid_add nb bs i (s, c :: Body) =
     (s + nb ! (i mod NP),
      \<lparr>mass = mass c + mass (bs i),
       x = Vec3 (vget (x c) 0 + mass (bs i) * vget (x (bs i)) 0)
                (vget (x c) 1 + mass (bs i) * vget (x (bs i)) 1)
                (vget (x c) 2 + mass (bs i) * vget (x (bs i)) 2),
       v = Vec3 (vget (v c) 0 + real_of_int (nb ! (i mod NP)) * vget (v (bs i)) 0)
                (vget (v c) 1 + real_of_int (nb ! (i mod NP)) * vget (v (bs i)) 1)
                (vget (v c) 2 + real_of_int (nb ! (i mod NP)) * vget (v (bs i)) 2)\<rparr>)"
  by (cases "x c"; cases "v c") (simp add: centroid_add_def upt_N_DIM)

lemma fold_centroid_add:
  "fold (centroid_add nb bs) [0..<N] (s, c :: Body) =
     (s + (\<Sum>i<N. nb ! (i mod NP)),
      \<lparr>mass = mass c + (\<Sum>i<N. mass (bs i)),
       x = Vec3 (vget (x c) 0 + (\<Sum>i<N. mass (bs i) * vget (x (bs i)) 0))
                (vget (x c) 1 + (\<Sum>i<N. mass (bs i) * vget (x (bs i)) 1))
                (vget (x c) 2 + (\<Sum>i<N. mass (bs i) * vget (x (bs i)) 2)),
       v = Vec3 (vget (v c) 0 + (\<Sum>i<N. real_of_int (nb ! (i mod NP)) * vget (v (bs i)) 0))
                (vget (v c) 1 + (\<Sum>i<N. real_of_int (nb ! (i mod NP)) * vget (v (bs i)) 1))
                (vget (v c) 2 + (\<Sum>i<N. real_of_int (nb ! (i mod NP)) * vget (v (bs i)) 2))\<rparr>)"
proof (induction N)
  case 0
  show ?case by (cases "x c"; cases "v c"; cases c) simp
next
  case (Suc N)
  show ?case by (simp add: Suc centroid_add_step add.assoc)
qed

lemma centroid_div_all:
  "m \<noteq> 0 \<Longrightarrow> s \<noteq> 0 \<Longrightarrow>
   foldE (centroid_div s) [0..<N_DIM] \<lparr>mass = m, x = Vec3 a b c, v = Vec3 d e f\<rparr> =
     Inr \<lparr>mass = m, x = Vec3 (a / m) (b / m) (c / m),
          v = Vec3 (d / real_of_int s) (e / real_of_int s) (f / real_of_int s)\<rparr>"
  by (simp add: upt_N_DIM centroid_div_def)

lemma get_centroid_value:
  assumes "N \<noteq> 0" and "(\<Sum>i<N. mass (bs i)) \<noteq> 0" and "(\<Sum>i<N. nb ! (i mod NP)) \<noteq> 0"
  shows "get_centroid N nb bs =
    Inr \<lparr>mass = (\<Sum>i<N. mass (bs i)),
         x = Vec3 ((\<Sum>i<N. mass (bs i) * vget (x (bs i)) 0) / (\<Sum>i<N. mass (bs i)))
                  ((\<Sum>i<N. mass (bs i) * vget (x (bs i)) 1) / (\<Sum>i<N. mass (bs i)))
                  ((\<Sum>i<N. mass (bs i) * vget (x (bs i)) 2) / (\<Sum>i<N. mass (bs i))),
         v = Vec3 ((\<Sum>i<N. real_of_int (nb ! (i mod NP)) * vget (v (bs i)) 0) / real_of_int (\<Sum>i<N. nb ! (i mod NP)))
                  ((\<Sum>i<N. real_of_int (nb ! (i mod NP)) * vget (v (bs i)) 1) / real_of_int (\<Sum>i<N. nb ! (i mod NP)))
                  ((\<Sum>i<N. real_of_int (nb ! (i mod NP)) * vget (v (bs i)) 2) / real_of_int (\<Sum>i<N. nb ! (i mod NP)))\<rparr>"
  using assms
  by (simp add: get_centroid_def fold_centroid_add zero_centroid_def centroid_div_all)

lemma ALL_ONES_nth: "k < NP \<Longrightarrow> ALL_ONES ! k = 1"
  by (auto simp: NP_def ALL_ONES_def nth_Cons' )

lemma local_centroid_value:
  assumes "n \<noteq> 0" and "(\<Sum>i<n. mass (bs i)) \<noteq> 0"
  shows "get_centroid n ALL_ONES bs =
    Inr \<lparr>mass = (\<Sum>i<n. mass (bs i)),
         x = Vec3 ((\<Sum>i<n. mass (bs i) * vget (x (bs i)) 0) / (\<Sum>i<n. mass (bs i)))
                  ((\<Sum>i<n. mass (bs i) * vget (x (bs i)) 1) / (\<Sum>i<n. mass (bs i)))
                  ((\<Sum>i<n. mass (bs i) * vget (x (bs i)) 2) / (\<Sum>i<n. mass (bs i))),
         v = Vec3 ((\<Sum>i<n. vget (v (bs i)) 0) / real n)
                  ((\<Sum>i<n. vget (v (bs i)) 1) / real n)
                  ((\<Sum>i<n. vget (v (bs i)) 2) / real n)\<rparr>"
proof -
  have one: "\<And>i. ALL_ONES ! (i mod NP) = 1"
    by (rule ALL_ONES_nth) (simp add: NP_def)
  have c: "(\<Sum>i<n. ALL_ONES ! (i mod NP)) \<noteq> 0"
    using assms(1) by (simp add: one)
  show ?thesis
    unfolding get_centroid_value [OF assms(1,2) c] by (simp add: one)
qed

text \<open>
  C6. The octant of a position is \<open>4\<cdot>[z > 0] + 2\<cdot>[y > 0] + [x > 0]\<close> with strict
  comparisons, it lies between 0 and 7, and a coordinate that is exactly 0 is classified
  as a negative coordinate is. The octant is a function of the position alone.
\<close>

theorem get_octant_rank_spec:
  "get_octant_rank (Vec3 a b c) =
      4 * (if c > 0 then 1 else 0) + 2 * (if b > 0 then 1 else 0) + (if a > 0 then 1 else 0)
   \<and> 0 \<le> get_octant_rank (Vec3 a b c) \<and> get_octant_rank (Vec3 a b c) \<le> 7
   \<and> get_octant_rank (Vec3 0 b c) = get_octant_rank (Vec3 (- 1) b c)
   \<and> get_octant_rank (Vec3 a 0 c) = get_octant_rank (Vec3 a (- 1) c)
   \<and> get_octant_rank (Vec3 a b 0) = get_octant_rank (Vec3 a b (- 1))"
  by (simp add: get_octant_rank_def)

text \<open>
  What \<^verbatim>\<open>shouldSend\<close> computes when the conversions to \<^verbatim>\<open>int\<close> are defined: an octant is
  marked when the distance is at least 1 and at most the squared cutoff.
\<close>

lemma boundary_dist_nonneg: "0 \<le> boundary_dist ps oc"
  by (simp add: boundary_dist_def upt_N_DIM pow_2)

lemma abs_int_value:
  assumes "0 \<le> d" and "d < 2 ^ 31"
  shows "abs_int d = Inr \<lfloor>d\<rfloor>"
proof -
  have "\<lfloor>d\<rfloor> < 2 ^ 31" using assms(2) by (simp add: floor_less_iff)
  moreover have "0 \<le> \<lfloor>d\<rfloor>" using assms(1) by simp
  ultimately show ?thesis using assms(1) by (simp add: abs_int_def)
qed

lemma floor_below_epsilon:
  assumes "0 \<le> (d :: real)"
  shows "real_of_int \<lfloor>d\<rfloor> < EPSILON \<longleftrightarrow> d < 1"
proof
  assume a: "real_of_int \<lfloor>d\<rfloor> < EPSILON"
  have "EPSILON < 1" by (simp add: EPSILON_def)
  with a have "real_of_int \<lfloor>d\<rfloor> < 1" by (rule less_trans)
  then have "\<lfloor>d\<rfloor> < 1" by linarith
  then show "d < 1" by (simp add: floor_less_iff)
next
  assume "d < 1"
  with assms have "\<lfloor>d\<rfloor> = 0" by linarith
  then show "real_of_int \<lfloor>d\<rfloor> < EPSILON" by (simp add: EPSILON_def)
qed

lemma shouldSend_fold:
  assumes "\<forall>oc<k. boundary_dist ps oc < 2 ^ 31"
  shows "foldE (\<lambda>oc transmit.
        let dist = boundary_dist ps oc in
        case abs_int dist of
          Inl e \<Rightarrow> Inl e
        | Inr a \<Rightarrow>
            if real_of_int a < EPSILON \<or> dist > CUTOFF_SQR then Inr (transmit(oc := 0))
            else Inr (transmit(oc := 1))) [0..<k] t =
     Inr (\<lambda>oc. if oc < k then (if boundary_dist ps oc < 1 \<or> boundary_dist ps oc > CUTOFF_SQR then 0 else 1)
               else t oc)"
  using assms
proof (induction k)
  case 0
  show ?case by simp
next
  case (Suc k)
  then have d: "boundary_dist ps k < 2 ^ 31" by simp
  from Suc show ?case
    by (auto simp: foldE_upt_Suc abs_int_value [OF boundary_dist_nonneg d]
          floor_below_epsilon [OF boundary_dist_nonneg] fun_eq_iff less_Suc_eq Let_def simp del: upt_Suc)
qed

lemma shouldSend_value:
  assumes "\<forall>oc<NP. boundary_dist ps oc < 2 ^ 31"
  shows "shouldSend ps t =
     Inr (\<lambda>oc. if oc < NP then (if boundary_dist ps oc < 1 \<or> boundary_dist ps oc > CUTOFF_SQR then 0 else 1)
               else t oc)"
  unfolding shouldSend_def by (rule shouldSend_fold [OF assms])

text \<open>
  C1. A body whose squared distance to an octant, summed over the axes where its sign
  disagrees with the octant's, lies strictly between the epsilon and the squared cutoff is
  a candidate ghost for that octant. The code converts the distance to \<^verbatim>\<open>int\<close> before it
  compares it with the epsilon: at the position \<open>(-0.5, 1, 1)\<close> the distance to octant 7
  is \<open>0.25\<close>, between the two bounds, and the body is not marked for octant 7.
\<close>

theorem shouldSend_omits_near_boundary:
  "boundary_dist (Vec3 (- 1 / 2) 1 1) 7 = 1 / 4 \<and> EPSILON < 1 / 4 \<and> 1 / 4 < CUTOFF_SQR
   \<and> shouldSend (Vec3 (- 1 / 2) 1 1) t =
       Inr (t(0 := 1, 1 := 1, 2 := 1, 3 := 1, 4 := 1, 5 := 1, 6 := 0, 7 := 0))"
  by (simp add: shouldSend_def upt_NP boundary_dist_def upt_N_DIM octant_dims_def pow_2
        abs_int_def EPSILON_def CUTOFF_SQR_def)

text \<open>
  C4. For two distinct bodies whose squared separation exceeds the squared cutoff, the
  kernel returns the force accumulator unchanged.
\<close>

theorem force_zero_beyond_cutoff:
  assumes "this \<noteq> that" and "r2_of (deref bs rb this) (deref bs rb that) > CUTOFF_SQR"
  shows "compute_force_as_vector bs rb this that vec = Inr vec"
  using assms by (simp add: compute_force_as_vector_def)

theorem force_zero_beyond_cutoff_witness:
  "In_bodies 0 \<noteq> In_recvbuf 0
   \<and> r2_of (deref (\<lambda>_. \<lparr>mass = 1, x = Vec3 0 0 0, v = Vec3 0 0 0\<rparr>)
               (\<lambda>_. \<lparr>mass = 1, x = Vec3 6 0 0, v = Vec3 0 0 0\<rparr>) (In_bodies 0))
            (deref (\<lambda>_. \<lparr>mass = 1, x = Vec3 0 0 0, v = Vec3 0 0 0\<rparr>)
               (\<lambda>_. \<lparr>mass = 1, x = Vec3 6 0 0, v = Vec3 0 0 0\<rparr>) (In_recvbuf 0)) > CUTOFF_SQR
   \<and> compute_force_as_vector (\<lambda>_. \<lparr>mass = 1, x = Vec3 0 0 0, v = Vec3 0 0 0\<rparr>)
        (\<lambda>_. \<lparr>mass = 1, x = Vec3 6 0 0, v = Vec3 0 0 0\<rparr>) (In_bodies 0) (In_recvbuf 0)
        (Vec3 1 2 3) = Inr (Vec3 1 2 3)"
proof -
  have far: "r2_of (deref (\<lambda>_. \<lparr>mass = 1, x = Vec3 0 0 0, v = Vec3 0 0 0\<rparr>)
               (\<lambda>_. \<lparr>mass = 1, x = Vec3 6 0 0, v = Vec3 0 0 0\<rparr>) (In_bodies 0))
            (deref (\<lambda>_. \<lparr>mass = 1, x = Vec3 0 0 0, v = Vec3 0 0 0\<rparr>)
               (\<lambda>_. \<lparr>mass = 1, x = Vec3 6 0 0, v = Vec3 0 0 0\<rparr>) (In_recvbuf 0)) > CUTOFF_SQR"
    by (simp add: r2_of_def pow_2 CUTOFF_SQR_def)
  have ne: "In_bodies 0 \<noteq> In_recvbuf 0" by simp
  from force_zero_beyond_cutoff [OF ne far, of "Vec3 1 2 3"] ne far show ?thesis by blast
qed

text \<open>
  C8. For an empty set of bodies the centroid is the zero centroid (mass 0, position 0,
  velocity 0): the function returns before its divisions, so the result is a value and
  not the failure of a division by zero.
\<close>

theorem get_centroid_empty:
  "get_centroid 0 n_bodies bs = Inr \<lparr>mass = 0, x = Vec3 0 0 0, v = Vec3 0 0 0\<rparr>"
  by (simp add: get_centroid_def zero_centroid_def)

text \<open>
  C9. The centroid the coordinator reports, from the population counts and the local
  centroids of the 8 processes: its mass is the sum of the local masses, its position is
  the mean of the local positions weighted by the local masses, and its velocity is the
  mean of the local velocities weighted by the population counts. This holds when the
  total mass and the total count are not zero, which is when the divisions are defined.
\<close>

theorem report_global_centroid:
  assumes M: "(\<Sum>i<NP. mass (cs i)) \<noteq> 0" and C: "(\<Sum>i<NP. n_bodies ! i) \<noteq> 0"
  shows "report n_bodies cs =
    Inr \<lparr>mass = (\<Sum>i<NP. mass (cs i)),
         x = Vec3 ((\<Sum>i<NP. mass (cs i) * vget (x (cs i)) 0) / (\<Sum>i<NP. mass (cs i)))
                  ((\<Sum>i<NP. mass (cs i) * vget (x (cs i)) 1) / (\<Sum>i<NP. mass (cs i)))
                  ((\<Sum>i<NP. mass (cs i) * vget (x (cs i)) 2) / (\<Sum>i<NP. mass (cs i))),
         v = Vec3 ((\<Sum>i<NP. real_of_int (n_bodies ! i) * vget (v (cs i)) 0) / real_of_int (\<Sum>i<NP. n_bodies ! i))
                  ((\<Sum>i<NP. real_of_int (n_bodies ! i) * vget (v (cs i)) 1) / real_of_int (\<Sum>i<NP. n_bodies ! i))
                  ((\<Sum>i<NP. real_of_int (n_bodies ! i) * vget (v (cs i)) 2) / real_of_int (\<Sum>i<NP. n_bodies ! i))\<rparr>"
proof -
  have np: "NP \<noteq> 0" by (simp add: NP_def)
  have m: "\<And>f :: int \<Rightarrow> nat \<Rightarrow> 'a :: comm_monoid_add. (\<Sum>i<NP. f (n_bodies ! (i mod NP)) i) = (\<Sum>i<NP. f (n_bodies ! i) i)"
    by (rule sum.cong) simp_all
  have C': "(\<Sum>i<NP. n_bodies ! (i mod NP)) \<noteq> 0"
    using C m [of "\<lambda>a i. a"] by simp
  show ?thesis
    unfolding report_def get_centroid_value [OF np M C']
    using m [of "\<lambda>a i. a"] m [of "\<lambda>a i. real_of_int a * vget (v (cs i)) 0"]
      m [of "\<lambda>a i. real_of_int a * vget (v (cs i)) 1"] m [of "\<lambda>a i. real_of_int a * vget (v (cs i)) 2"]
    by simp
qed

theorem report_global_centroid_witness:
  "(\<Sum>i<NP. mass ((\<lambda>i. if i = 0 then \<lparr>mass = 1, x = Vec3 (- 1) (- 1) (- 1), v = Vec3 0 0 0\<rparr>
                          else \<lparr>mass = 3, x = Vec3 1 1 1, v = Vec3 2 0 0\<rparr>) i)) \<noteq> 0
   \<and> (\<Sum>i<NP. [1, 1, 1, 1, 1, 1, 1, 1 :: int] ! i) \<noteq> 0
   \<and> report [1, 1, 1, 1, 1, 1, 1, 1]
        (\<lambda>i. if i = 0 then \<lparr>mass = 1, x = Vec3 (- 1) (- 1) (- 1), v = Vec3 0 0 0\<rparr>
              else \<lparr>mass = 3, x = Vec3 1 1 1, v = Vec3 2 0 0\<rparr>) =
       Inr \<lparr>mass = 22, x = Vec3 (20 / 22) (20 / 22) (20 / 22), v = Vec3 (14 / 8) 0 0\<rparr>"
  using report_global_centroid [of "\<lambda>i. if i = 0 then \<lparr>mass = 1, x = Vec3 (- 1) (- 1) (- 1), v = Vec3 0 0 0\<rparr>
              else \<lparr>mass = 3, x = Vec3 1 1 1, v = Vec3 2 0 0\<rparr>" "[1, 1, 1, 1, 1, 1, 1, 1]"]
  by (simp add: sum_NP)

lemma pow_3_2_eq_0: "pow r (3 / 2) = 0 \<longleftrightarrow> r = 0"
  by (simp add: pow_3_2)

lemma kernel_value:
  assumes "this \<noteq> that" and "r2_of (deref bs rb this) (deref bs rb that) \<noteq> 0"
  shows "compute_force_as_vector bs rb this that vec =
     Inr (Vec3 (vget vec 0 + spec_pair_force (deref bs rb this) (deref bs rb that) 0)
               (vget vec 1 + spec_pair_force (deref bs rb this) (deref bs rb that) 1)
               (vget vec 2 + spec_pair_force (deref bs rb this) (deref bs rb that) 2))"
  using assms
  by (cases vec) (simp add: compute_force_as_vector_def spec_pair_force_def tmp_of_def pow_3_2 upt_N_DIM Let_def)

lemma kernel_same: "compute_force_as_vector bs rb this this vec = Inr vec"
  by (simp add: compute_force_as_vector_def)

lemma kernel_loop:
  assumes "\<forall>j<n. ptr j \<noteq> this \<longrightarrow> r2_of (deref bs rb this) (deref bs rb (ptr j)) \<noteq> 0"
  shows "foldE (\<lambda>j F. compute_force_as_vector bs rb this (ptr j) F) [0..<n] F0 =
     Inr (Vec3 (vget F0 0 + (\<Sum>j<n. if ptr j = this then 0 else spec_pair_force (deref bs rb this) (deref bs rb (ptr j)) 0))
               (vget F0 1 + (\<Sum>j<n. if ptr j = this then 0 else spec_pair_force (deref bs rb this) (deref bs rb (ptr j)) 1))
               (vget F0 2 + (\<Sum>j<n. if ptr j = this then 0 else spec_pair_force (deref bs rb this) (deref bs rb (ptr j)) 2)))"
  using assms
proof (induction n)
  case 0
  show ?case by (cases F0) simp
next
  case (Suc n)
  then have IH: "foldE (\<lambda>j F. compute_force_as_vector bs rb this (ptr j) F) [0..<n] F0 =
     Inr (Vec3 (vget F0 0 + (\<Sum>j<n. if ptr j = this then 0 else spec_pair_force (deref bs rb this) (deref bs rb (ptr j)) 0))
               (vget F0 1 + (\<Sum>j<n. if ptr j = this then 0 else spec_pair_force (deref bs rb this) (deref bs rb (ptr j)) 1))
               (vget F0 2 + (\<Sum>j<n. if ptr j = this then 0 else spec_pair_force (deref bs rb this) (deref bs rb (ptr j)) 2)))"
    by simp
  show ?case
  proof (cases "ptr n = this")
    case True
    then show ?thesis by (simp only: foldE_upt_Suc IH sum.simps kernel_same) simp
  next
    case False
    with Suc.prems have "r2_of (deref bs rb this) (deref bs rb (ptr n)) \<noteq> 0" by simp
    with False show ?thesis
      by (simp add: foldE_upt_Suc IH kernel_value add.assoc del: upt_Suc)
  qed
qed

lemma sum_except:
  "(i :: nat) < n \<Longrightarrow> (\<Sum>j<n. if j = i then 0 else f j) = (\<Sum>j\<in>{..<n} - {i}. (f j :: real))"
proof -
  assume "i < n"
  then have "(\<Sum>j<n. if j = i then 0 else f j) = (\<Sum>j\<in>{..<n} - {i}. if j = i then 0 else f j)"
    using sum.remove [of "{..<n}" i "\<lambda>j. if j = i then 0 else f j"] \<open>i < n\<close> by simp
  also have "\<dots> = (\<Sum>j\<in>{..<n} - {i}. f j)"
    by (rule sum.cong) simp_all
  finally show ?thesis .
qed


lemma accumulate_force_value:
  assumes i: "i < n"
    and loc: "\<forall>j<n. j \<noteq> i \<longrightarrow> r2_of (bs i) (bs j) \<noteq> 0"
    and gh: "\<forall>j<m. r2_of (bs i) (rb j) \<noteq> 0"
  shows "accumulate_force n bs m rb i =
     Inr (Vec3 ((\<Sum>j\<in>{..<n} - {i}. spec_pair_force (bs i) (bs j) 0) + (\<Sum>j<m. spec_pair_force (bs i) (rb j) 0))
               ((\<Sum>j\<in>{..<n} - {i}. spec_pair_force (bs i) (bs j) 1) + (\<Sum>j<m. spec_pair_force (bs i) (rb j) 1))
               ((\<Sum>j\<in>{..<n} - {i}. spec_pair_force (bs i) (bs j) 2) + (\<Sum>j<m. spec_pair_force (bs i) (rb j) 2)))"
proof -
  have l: "\<forall>j<n. In_bodies j \<noteq> In_bodies i \<longrightarrow> r2_of (deref bs rb (In_bodies i)) (deref bs rb (In_bodies j)) \<noteq> 0"
    using loc by simp
  have g: "\<forall>j<m. In_recvbuf j \<noteq> In_bodies i \<longrightarrow> r2_of (deref bs rb (In_bodies i)) (deref bs rb (In_recvbuf j)) \<noteq> 0"
    using gh by simp
  show ?thesis
    unfolding accumulate_force_def kernel_loop [of n In_bodies "In_bodies i", OF l]
    by (simp add: kernel_loop [of m In_recvbuf "In_bodies i", OF g] sum_except [OF i])
qed

text \<open>
  C5. For a body \<open>i\<close> and every other candidate (another local body or a received
  body) within the cutoff, the kernel adds to each component of the accumulator exactly
  \<open>G \<cdot> mass\<^sub>i \<cdot> mass\<^sub>j / (r\<^sup>2)\<^sup>1\<^sup>.\<^sup>5 \<cdot> (position\<^sub>j - position\<^sub>i)\<close>, and the force accumulated for
  body \<open>i\<close> is the sum of one contribution for each other local body and one for each
  received body; nothing is added to the other body of a pair. The separations are
  nonzero, which is when the division is defined.
\<close>

theorem kernel_force_within_cutoff:
  assumes i: "i < n"
    and loc: "\<forall>j<n. j \<noteq> i \<longrightarrow> r2_of (bs i) (bs j) \<noteq> 0"
    and gh: "\<forall>j<m. r2_of (bs i) (rb j) \<noteq> 0"
  shows "(\<forall>that\<in>In_bodies ` ({..<n} - {i}) \<union> In_recvbuf ` {..<m}.
            r2_of (bs i) (deref bs rb that) \<le> CUTOFF_SQR \<longrightarrow>
            compute_force_as_vector bs rb (In_bodies i) that F =
              Inr (Vec3
                (vget F 0 + G * mass (bs i) * mass (deref bs rb that) / (r2_of (bs i) (deref bs rb that) powr 1.5)
                              * (vget (x (deref bs rb that)) 0 - vget (x (bs i)) 0))
                (vget F 1 + G * mass (bs i) * mass (deref bs rb that) / (r2_of (bs i) (deref bs rb that) powr 1.5)
                              * (vget (x (deref bs rb that)) 1 - vget (x (bs i)) 1))
                (vget F 2 + G * mass (bs i) * mass (deref bs rb that) / (r2_of (bs i) (deref bs rb that) powr 1.5)
                              * (vget (x (deref bs rb that)) 2 - vget (x (bs i)) 2))))
     \<and> accumulate_force n bs m rb i =
     Inr (Vec3 ((\<Sum>j\<in>{..<n} - {i}. spec_pair_force (bs i) (bs j) 0) + (\<Sum>j<m. spec_pair_force (bs i) (rb j) 0))
               ((\<Sum>j\<in>{..<n} - {i}. spec_pair_force (bs i) (bs j) 1) + (\<Sum>j<m. spec_pair_force (bs i) (rb j) 1))
               ((\<Sum>j\<in>{..<n} - {i}. spec_pair_force (bs i) (bs j) 2) + (\<Sum>j<m. spec_pair_force (bs i) (rb j) 2)))"
proof (intro conjI ballI impI)
  fix that
  assume t: "that \<in> In_bodies ` ({..<n} - {i}) \<union> In_recvbuf ` {..<m}"
    and c: "r2_of (bs i) (deref bs rb that) \<le> CUTOFF_SQR"
  from t loc gh have ne: "In_bodies i \<noteq> that" and nz: "r2_of (deref bs rb (In_bodies i)) (deref bs rb that) \<noteq> 0"
    by auto
  show "compute_force_as_vector bs rb (In_bodies i) that F =
              Inr (Vec3
                (vget F 0 + G * mass (bs i) * mass (deref bs rb that) / (r2_of (bs i) (deref bs rb that) powr 1.5)
                              * (vget (x (deref bs rb that)) 0 - vget (x (bs i)) 0))
                (vget F 1 + G * mass (bs i) * mass (deref bs rb that) / (r2_of (bs i) (deref bs rb that) powr 1.5)
                              * (vget (x (deref bs rb that)) 1 - vget (x (bs i)) 1))
                (vget F 2 + G * mass (bs i) * mass (deref bs rb that) / (r2_of (bs i) (deref bs rb that) powr 1.5)
                              * (vget (x (deref bs rb that)) 2 - vget (x (bs i)) 2)))"
    using c by (simp add: kernel_value [OF ne nz] spec_pair_force_def)
next
  show "accumulate_force n bs m rb i =
     Inr (Vec3 ((\<Sum>j\<in>{..<n} - {i}. spec_pair_force (bs i) (bs j) 0) + (\<Sum>j<m. spec_pair_force (bs i) (rb j) 0))
               ((\<Sum>j\<in>{..<n} - {i}. spec_pair_force (bs i) (bs j) 1) + (\<Sum>j<m. spec_pair_force (bs i) (rb j) 1))
               ((\<Sum>j\<in>{..<n} - {i}. spec_pair_force (bs i) (bs j) 2) + (\<Sum>j<m. spec_pair_force (bs i) (rb j) 2)))"
    by (rule accumulate_force_value [OF i loc gh])
qed

lemma integrate_value:
  assumes "mass b \<noteq> 0"
  shows "integrate DT F (b :: Body) =
     Inr \<lparr>mass = mass b,
          x = Vec3 (vget (x b) 0 + (vget (v b) 0 + vget F 0 * (DT / 2) / mass b) * DT)
                   (vget (x b) 1 + (vget (v b) 1 + vget F 1 * (DT / 2) / mass b) * DT)
                   (vget (x b) 2 + (vget (v b) 2 + vget F 2 * (DT / 2) / mass b) * DT),
          v = Vec3 (vget (v b) 0 + vget F 0 * (DT / 2) / mass b)
                   (vget (v b) 1 + vget F 1 * (DT / 2) / mass b)
                   (vget (v b) 2 + vget F 2 * (DT / 2) / mass b)\<rparr>"
  using assms
  by (cases "x b"; cases "v b"; cases b) (simp add: integrate_def upt_N_DIM Let_def)

lemma Vec3_vget_Suc: "Vec3 (vget u 0) (vget u (Suc 0)) (vget u 2) = u"
  by (cases u) simp

lemma accumulate_force_alone: "accumulate_force (Suc 0) bs 0 rb 0 = Inr (Vec3 0 0 0)"
  by (simp add: accumulate_force_def kernel_same)

text \<open>
  C7, as amended. A body alone, with no other local body and no received body, keeps its
  velocity in a step, and its position advances by the velocity times the step size; its
  mass is not zero.
\<close>

theorem lone_body_step:
  assumes "mass (bs 0) \<noteq> 0"
  shows "\<exists>sc' ex'. update_bodies DT rnk 1 rb 0 (bs, sc, ex) =
     Inr (bs(0 := \<lparr>mass = mass (bs 0),
                   x = Vec3 (vget (x (bs 0)) 0 + vget (v (bs 0)) 0 * DT)
                            (vget (x (bs 0)) 1 + vget (v (bs 0)) 1 * DT)
                            (vget (x (bs 0)) 2 + vget (v (bs 0)) 2 * DT),
                   v = v (bs 0)\<rparr>), sc', ex')"
  using assms
  by (simp add: update_bodies_def update_body_def accumulate_force_alone integrate_value Let_def Vec3_vget_Suc)

lemma foldE_upt_Suc_Inr:
  assumes "foldE f [0..<Suc k] s = Inr s''"
  obtains s' where "foldE f [0..<k] s = Inr s'" and "f k s' = Inr s''"
  using assms by (auto simp: foldE_append split: sum.splits)

lemma update_body_Inr:
  assumes "update_body DT rnk n rb m i (bs, sc, ex) = Inr (bs', sc', ex')"
  obtains F b where "accumulate_force n bs m rb i = Inr F" and "integrate DT F (bs i) = Inr b"
    and "bs' = bs(i := b)"
    and "ex' = ex(i := (if get_octant_rank (x b) = int rnk then - 1 else get_octant_rank (x b)))"
    and "sc' = (if get_octant_rank (x b) = int rnk then sc
                else sc(nat (get_octant_rank (x b)) := sc (nat (get_octant_rank (x b))) + 1))"
  using assms
  by (auto simp: update_body_def Let_def split: sum.splits if_splits)

lemma get_octant_rank_range: "0 \<le> get_octant_rank p \<and> get_octant_rank p < int NP"
  by (simp add: get_octant_rank_def NP_def)

lemma update_loop_frame:
  assumes "foldE (update_body DT rnk n rb m) [0..<k] (bs, sc, ex) = Inr (bs', sc', ex')"
  shows "\<forall>j\<ge>k. bs' j = bs j \<and> ex' j = ex j"
  using assms
proof (induction k arbitrary: bs' sc' ex')
  case 0
  then show ?case by simp
next
  case (Suc k)
  from Suc.prems obtain s1 where 1: "foldE (update_body DT rnk n rb m) [0..<k] (bs, sc, ex) = Inr s1"
    and 2: "update_body DT rnk n rb m k s1 = Inr (bs', sc', ex')"
    by (rule foldE_upt_Suc_Inr)
  obtain bs1 sc1 ex1 where s1: "s1 = (bs1, sc1, ex1)" by (cases s1)
  from 2 [unfolded s1] obtain b e where "bs' = bs1(k := b)" and "ex' = ex1(k := e)"
    by (rule update_body_Inr)
  with Suc.IH [OF 1 [unfolded s1]] show ?case by simp
qed

lemma update_loop_sequential:
  assumes "foldE (update_body DT rnk n rb m) [0..<k] (bs, sc, ex) = Inr (bs', sc', ex')"
  shows "\<forall>i<k. \<exists>F. accumulate_force n (\<lambda>j. if j < i then bs' j else bs j) m rb i = Inr F
                  \<and> integrate DT F (bs i) = Inr (bs' i)"
  using assms
proof (induction k arbitrary: bs' sc' ex')
  case 0
  then show ?case by simp
next
  case (Suc k)
  from Suc.prems obtain s1 where 1: "foldE (update_body DT rnk n rb m) [0..<k] (bs, sc, ex) = Inr s1"
    and 2: "update_body DT rnk n rb m k s1 = Inr (bs', sc', ex')"
    by (rule foldE_upt_Suc_Inr)
  obtain bs1 sc1 ex1 where s1: "s1 = (bs1, sc1, ex1)" by (cases s1)
  from 2 [unfolded s1] obtain F b where F: "accumulate_force n bs1 m rb k = Inr F"
    and b: "integrate DT F (bs1 k) = Inr b" and bs': "bs' = bs1(k := b)"
    by (rule update_body_Inr)
  have frame: "\<forall>j\<ge>k. bs1 j = bs j"
    using update_loop_frame [OF 1 [unfolded s1]] by simp
  have IH: "\<forall>i<k. \<exists>F. accumulate_force n (\<lambda>j. if j < i then bs1 j else bs j) m rb i = Inr F
                  \<and> integrate DT F (bs i) = Inr (bs1 i)"
    by (rule Suc.IH [OF 1 [unfolded s1]])
  show ?case
  proof (intro allI impI)
    fix i assume "i < Suc k"
    then consider "i < k" | "i = k" by linarith
    then show "\<exists>F. accumulate_force n (\<lambda>j. if j < i then bs' j else bs j) m rb i = Inr F
                  \<and> integrate DT F (bs i) = Inr (bs' i)"
    proof cases
      case 1
      then have "(\<lambda>j. if j < i then bs' j else bs j) = (\<lambda>j. if j < i then bs1 j else bs j)"
        by (auto simp: bs')
      moreover have "bs' i = bs1 i" using 1 by (simp add: bs')
      ultimately show ?thesis using IH 1 by simp
    next
      case 2
      have "(\<lambda>j. if j < i then bs' j else bs j) = bs1"
        using frame by (auto simp: bs' 2)
      moreover have "bs1 k = bs k" using frame by simp
      ultimately show ?thesis using F b by (simp add: 2 bs')
    qed
  qed
qed

lemma update_body_success:
  assumes "accumulate_force n bs m rb i = Inr F" and "integrate DT F (bs i) = Inr b"
  shows "\<exists>sc' ex'. update_body DT rnk n rb m i (bs, sc, ex) = Inr (bs(i := b), sc', ex')"
  using assms by (simp add: update_body_def Let_def)

lemma update_loop_complete:
  assumes "\<forall>i<k. \<exists>F. accumulate_force n (\<lambda>j. if j < i then bs' j else bs j) m rb i = Inr F
                  \<and> integrate DT F (bs i) = Inr (bs' i)"
  shows "\<exists>sc' ex'. foldE (update_body DT rnk n rb m) [0..<k] (bs, sc, ex) =
            Inr (\<lambda>j. if j < k then bs' j else bs j, sc', ex')"
  using assms
proof (induction k)
  case 0
  show ?case by simp
next
  case (Suc k)
  then obtain sc1 ex1 where 1: "foldE (update_body DT rnk n rb m) [0..<k] (bs, sc, ex) =
            Inr (\<lambda>j. if j < k then bs' j else bs j, sc1, ex1)"
    by auto
  from Suc.prems obtain F where F: "accumulate_force n (\<lambda>j. if j < k then bs' j else bs j) m rb k = Inr F"
    and b: "integrate DT F (bs k) = Inr (bs' k)"
    by auto
  have "integrate DT F ((\<lambda>j. if j < k then bs' j else bs j) k) = Inr (bs' k)"
    using b by simp
  from update_body_success [OF F this, of rnk sc1 ex1] obtain sc' ex' where
    "update_body DT rnk n rb m k (\<lambda>j. if j < k then bs' j else bs j, sc1, ex1) =
       Inr ((\<lambda>j. if j < k then bs' j else bs j)(k := bs' k), sc', ex')"
    by blast
  moreover have "(\<lambda>j. if j < k then bs' j else bs j)(k := bs' k) = (\<lambda>j. if j < Suc k then bs' j else bs j)"
    by (auto simp: fun_eq_iff)
  ultimately show ?case
    by (simp add: foldE_upt_Suc 1 del: upt_Suc)
qed


text \<open>
  C10. The loop over the local bodies updates them in place and in index order. It
  returns the array \<open>bs'\<close> exactly when, for every local index \<open>i\<close>, the force on body
  \<open>i\<close> accumulated over the array that holds the bodies of smaller index as they are
  after their integration and the bodies of index \<open>i\<close> and larger as at the start of the
  step, and over the received bodies, which the loop does not change, is defined, and
  integrating the start-of-step body \<open>i\<close> with that force gives \<open>bs' i\<close>; the elements
  beyond the local bodies are unchanged. The step is not computed from one snapshot of the
  start-of-step positions.
\<close>

theorem update_is_sequential:
  "(\<exists>sc' ex'. update_bodies DT rnk n rb m (bs, sc, ex) = Inr (bs', sc', ex'))
   \<longleftrightarrow> ((\<forall>i<n. \<exists>F. accumulate_force n (\<lambda>j. if j < i then bs' j else bs j) m rb i = Inr F
                        \<and> integrate DT F (bs i) = Inr (bs' i))
        \<and> (\<forall>j\<ge>n. bs' j = bs j))"
proof
  assume "\<exists>sc' ex'. update_bodies DT rnk n rb m (bs, sc, ex) = Inr (bs', sc', ex')"
  then obtain sc' ex' where u: "foldE (update_body DT rnk n rb m) [0..<n] (bs, sc, ex) = Inr (bs', sc', ex')"
    by (auto simp: update_bodies_def)
  from update_loop_sequential [OF u] update_loop_frame [OF u]
  show "(\<forall>i<n. \<exists>F. accumulate_force n (\<lambda>j. if j < i then bs' j else bs j) m rb i = Inr F
                        \<and> integrate DT F (bs i) = Inr (bs' i))
        \<and> (\<forall>j\<ge>n. bs' j = bs j)"
    by simp
next
  assume a: "(\<forall>i<n. \<exists>F. accumulate_force n (\<lambda>j. if j < i then bs' j else bs j) m rb i = Inr F
                        \<and> integrate DT F (bs i) = Inr (bs' i))
        \<and> (\<forall>j\<ge>n. bs' j = bs j)"
  then have "(\<lambda>j. if j < n then bs' j else bs j) = bs'"
    by (auto simp: fun_eq_iff)
  with update_loop_complete [of n n bs' bs m rb DT rnk sc ex] a
  show "\<exists>sc' ex'. update_bodies DT rnk n rb m (bs, sc, ex) = Inr (bs', sc', ex')"
    by (simp add: update_bodies_def)
qed

lemmas eval_defs = update_bodies_def update_body_def accumulate_force_def compute_force_as_vector_def
  r2_of_def tmp_of_def pow_2 pow_3_2 integrate_def get_octant_rank_def upt_N_DIM Let_def
  CUTOFF_SQR_def G_def

lemma upt_2: "[0..<2] = [0, 1]"
  by (simp add: upt_rec)

lemma pair_bodies_update: "update_bodies 2 7 2 rb 0 (pair_bodies, \<lambda>_. 0, \<lambda>_. 0) =
   Inr (pair_bodies(0 := \<lparr>mass = 1, x = Vec3 3 1 1, v = Vec3 1 0 0\<rparr>,
                    1 := \<lparr>mass = 1, x = Vec3 4 1 1, v = Vec3 1 0 0\<rparr>),
        \<lambda>_. 0, (\<lambda>_. 0)(0 := - 1, 1 := - 1))"
  by (simp add: eval_defs upt_2)

lemma pair_bodies_snapshot_force: "accumulate_force 2 pair_bodies 0 rb 1 = Inr (Vec3 (- 1) 0 0)"
  by (simp add: eval_defs upt_2)

text \<open>
  C7 as stated fails: a body alone with velocity \<open>(1, 0, 0)\<close> at \<open>(1, 1, 1)\<close> is at
  \<open>(2, 1, 1)\<close> after a step of size 1.
\<close>

theorem lone_body_position_changes: "update_bodies 1 7 1 (\<lambda>_. zero_centroid) 0
     (\<lambda>_. \<lparr>mass = 1, x = Vec3 1 1 1, v = Vec3 1 0 0\<rparr>, \<lambda>_. 0, \<lambda>_. 0) =
   Inr ((\<lambda>_. \<lparr>mass = 1, x = Vec3 1 1 1, v = Vec3 1 0 0\<rparr>)(0 := \<lparr>mass = 1, x = Vec3 2 1 1, v = Vec3 1 0 0\<rparr>),
        \<lambda>_. 0, (\<lambda>_. 0)(0 := - 1))
   \<and> Vec3 2 1 1 \<noteq> Vec3 1 1 1"
  by (simp add: eval_defs)

lemma set_2_minus_0: "{..<2::nat} - {0} = {1}"
  by auto

theorem kernel_force_within_cutoff_witness:
  "accumulate_force 2 pair_bodies 1 (\<lambda>_. \<lparr>mass = 2, x = Vec3 1 1 2, v = Vec3 0 0 0\<rparr>) 0 = Inr (Vec3 1 0 2)"
proof -
  let ?rb = "\<lambda>_ :: nat. \<lparr>mass = 2, x = Vec3 1 1 2, v = Vec3 0 0 0\<rparr>"
  have h1: "(0::nat) < 2" by simp
  have h2: "\<forall>j<2. j \<noteq> 0 \<longrightarrow> r2_of (pair_bodies 0) (pair_bodies j) \<noteq> 0"
    by (simp add: r2_of_def pow_2)
  have h3: "\<forall>j<1. r2_of (pair_bodies 0) (?rb j) \<noteq> 0"
    by (simp add: r2_of_def pow_2)
  from kernel_force_within_cutoff [OF h1 h2 h3, of "Vec3 0 0 0"] show ?thesis
    by (simp add: set_2_minus_0 spec_pair_force_def r2_of_def pow_2 CUTOFF_SQR_def G_def)
qed

theorem lone_body_step_witness:
  "\<exists>sc' ex'. update_bodies 1 7 1 (\<lambda>_. zero_centroid) 0
     (\<lambda>_. \<lparr>mass = 1, x = Vec3 1 1 1, v = Vec3 1 0 0\<rparr>, \<lambda>_. 0, \<lambda>_. 0) =
   Inr ((\<lambda>_. \<lparr>mass = 1, x = Vec3 1 1 1, v = Vec3 1 0 0\<rparr>)(0 := \<lparr>mass = 1, x = Vec3 2 1 1, v = Vec3 1 0 0\<rparr>),
        sc', ex')"
  using lone_body_step [of "\<lambda>_. \<lparr>mass = 1, x = Vec3 1 1 1, v = Vec3 1 0 0\<rparr>" 1 7 "\<lambda>_. zero_centroid" "\<lambda>_. 0" "\<lambda>_. 0"]
  by simp

theorem update_is_sequential_witness:
  "update_bodies 2 7 2 (\<lambda>_. zero_centroid) 0 (pair_bodies, \<lambda>_. 0, \<lambda>_. 0) =
     Inr (pair_bodies(0 := \<lparr>mass = 1, x = Vec3 3 1 1, v = Vec3 1 0 0\<rparr>,
                      1 := \<lparr>mass = 1, x = Vec3 4 1 1, v = Vec3 1 0 0\<rparr>),
          \<lambda>_. 0, (\<lambda>_. 0)(0 := - 1, 1 := - 1))
   \<and> (\<exists>F. accumulate_force 2
          (\<lambda>j. if j < 1 then (pair_bodies(0 := \<lparr>mass = 1, x = Vec3 3 1 1, v = Vec3 1 0 0\<rparr>,
                    1 := \<lparr>mass = 1, x = Vec3 4 1 1, v = Vec3 1 0 0\<rparr>)) j else pair_bodies j)
          0 (\<lambda>_. zero_centroid) 1 = Inr F
        \<and> integrate 2 F (pair_bodies 1) = Inr \<lparr>mass = 1, x = Vec3 4 1 1, v = Vec3 1 0 0\<rparr>)
   \<and> accumulate_force 2
          (\<lambda>j. if j < 1 then (pair_bodies(0 := \<lparr>mass = 1, x = Vec3 3 1 1, v = Vec3 1 0 0\<rparr>,
                    1 := \<lparr>mass = 1, x = Vec3 4 1 1, v = Vec3 1 0 0\<rparr>)) j else pair_bodies j)
          0 (\<lambda>_. zero_centroid) 1 = Inr (Vec3 1 0 0)
   \<and> accumulate_force 2 pair_bodies 0 (\<lambda>_. zero_centroid) 1 = Inr (Vec3 (- 1) 0 0)"
proof -
  let ?bs' = "pair_bodies(0 := \<lparr>mass = 1, x = Vec3 3 1 1, v = Vec3 1 0 0\<rparr>,
                    1 := \<lparr>mass = 1, x = Vec3 4 1 1, v = Vec3 1 0 0\<rparr>)"
  have ev: "update_bodies 2 7 2 (\<lambda>_. zero_centroid) 0 (pair_bodies, \<lambda>_. 0, \<lambda>_. 0) =
     Inr (?bs', \<lambda>_. 0, (\<lambda>_. 0)(0 := - 1, 1 := - 1))"
    by (rule pair_bodies_update)
  then have "\<exists>sc' ex'. update_bodies 2 7 2 (\<lambda>_. zero_centroid) 0 (pair_bodies, \<lambda>_. 0, \<lambda>_. 0) =
     Inr (?bs', sc', ex')"
    by blast
  from this [unfolded update_is_sequential] have "\<exists>F. accumulate_force 2 (\<lambda>j. if j < 1 then ?bs' j else pair_bodies j)
          0 (\<lambda>_. zero_centroid) 1 = Inr F \<and> integrate 2 F (pair_bodies 1) = Inr (?bs' 1)"
    by (simp add: less_2_cases_iff)
  with ev show ?thesis
    by (simp add: eval_defs upt_2)
qed

section \<open>Migration\<close>

lemma offsets_fold:
  "fold (\<lambda>j (displ, s). (displ(j := s), s + counts j)) [0..<k] (d, 0) =
     (\<lambda>j. if j < k then (\<Sum>i<j. counts i) else d j, \<Sum>i<k. counts i)"
proof (induction k)
  case 0
  show ?case by simp
next
  case (Suc k)
  have "fold (\<lambda>j (displ, s). (displ(j := s), s + counts j)) [0..<Suc k] (d, 0) =
      (\<lambda>(displ, s). (displ(k := s), s + counts k))
        (fold (\<lambda>j (displ, s). (displ(j := s), s + counts j)) [0..<k] (d, 0))"
    by simp
  also have "\<dots> = (\<lambda>j. if j < Suc k then (\<Sum>i<j. counts i) else d j, \<Sum>i<Suc k. counts i)"
    unfolding Suc by (auto simp: fun_eq_iff less_Suc_eq)
  finally show ?case .
qed

lemma offsets_value:
  "offsets counts d = (\<lambda>j. if j < NP then (\<Sum>i<j. counts i) else d j, \<Sum>i<NP. counts i)"
  by (simp add: offsets_def offsets_fold)

lemma length_filter_upt_mono:
  "k \<le> n \<Longrightarrow> length (filter P [0..<k]) \<le> length (filter P [0..<n])"
proof (induction n)
  case 0
  then show ?case by simp
next
  case (Suc n)
  then show ?case by (cases "k = Suc n") auto
qed

lemma fill_exiles_fold:
  assumes disj: "\<And>oc oc' t t'. oc \<noteq> oc' \<Longrightarrow> t < length (filter (\<lambda>i. ex i = int oc) [0..<n])
          \<Longrightarrow> t' < length (filter (\<lambda>i. ex i = int oc') [0..<n]) \<Longrightarrow> sd oc + t \<noteq> sd oc' + t'"
    and k: "k \<le> n"
  shows "\<exists>ptrs sb'. fill_exiles k bs ex (sd, sb) = (ptrs, sb')
     \<and> (\<forall>oc. ptrs oc = sd oc + length (filter (\<lambda>i. ex i = int oc) [0..<k]))
     \<and> (\<forall>oc. \<forall>t<length (filter (\<lambda>i. ex i = int oc) [0..<k]).
            sb' (sd oc + t) = bs (filter (\<lambda>i. ex i = int oc) [0..<k] ! t))"
  using k
proof (induction k)
  case 0
  show ?case by (simp add: fill_exiles_def)
next
  case (Suc k)
  then have "k \<le> n" by simp
  from Suc.IH [OF this] obtain ptrs sb' where
    f: "fill_exiles k bs ex (sd, sb) = (ptrs, sb')"
    and p: "\<And>oc. ptrs oc = sd oc + length (filter (\<lambda>i. ex i = int oc) [0..<k])"
    and v: "\<And>oc t. t < length (filter (\<lambda>i. ex i = int oc) [0..<k]) \<Longrightarrow>
            sb' (sd oc + t) = bs (filter (\<lambda>i. ex i = int oc) [0..<k] ! t)"
    by blast
  show ?case
  proof (cases "ex k < 0")
    case True
    then have ne: "\<And>oc. ex k \<noteq> int oc" by auto
    have "fill_exiles (Suc k) bs ex (sd, sb) = (ptrs, sb')"
      using f True by (simp add: fill_exiles_def)
    then show ?thesis using p v ne by simp
  next
    case False
    define oc0 where "oc0 = nat (ex k)"
    have e: "ex k = int oc0" using False by (simp add: oc0_def)
    have step: "fill_exiles (Suc k) bs ex (sd, sb) = (ptrs(oc0 := ptrs oc0 + 1), sb'(ptrs oc0 := bs k))"
      using f False by (simp add: fill_exiles_def oc0_def Let_def)
    have lt: "length (filter (\<lambda>i. ex i = int oc0) [0..<k]) < length (filter (\<lambda>i. ex i = int oc0) [0..<n])"
    proof -
      have "length (filter (\<lambda>i. ex i = int oc0) [0..<Suc k]) \<le> length (filter (\<lambda>i. ex i = int oc0) [0..<n])"
        using Suc.prems by (rule length_filter_upt_mono)
      then show ?thesis using e by simp
    qed
    have le: "\<And>oc. length (filter (\<lambda>i. ex i = int oc) [0..<k]) \<le> length (filter (\<lambda>i. ex i = int oc) [0..<n])"
      using \<open>k \<le> n\<close> by (rule length_filter_upt_mono)
    show ?thesis
    proof (intro exI conjI allI impI)
      show "fill_exiles (Suc k) bs ex (sd, sb) = (ptrs(oc0 := ptrs oc0 + 1), sb'(ptrs oc0 := bs k))"
        by (rule step)
    next
      fix oc
      show "(ptrs(oc0 := ptrs oc0 + 1)) oc = sd oc + length (filter (\<lambda>i. ex i = int oc) [0..<Suc k])"
        using p e by auto
    next
      fix oc t
      assume t: "t < length (filter (\<lambda>i. ex i = int oc) [0..<Suc k])"
      show "(sb'(ptrs oc0 := bs k)) (sd oc + t) = bs (filter (\<lambda>i. ex i = int oc) [0..<Suc k] ! t)"
      proof (cases "oc = oc0")
        case True
        show ?thesis
        proof (cases "t = length (filter (\<lambda>i. ex i = int oc0) [0..<k])")
          case True
          then show ?thesis using \<open>oc = oc0\<close> e p by (simp add: nth_append)
        next
          case False
          with t \<open>oc = oc0\<close> e have "t < length (filter (\<lambda>i. ex i = int oc0) [0..<k])" by simp
          then show ?thesis using \<open>oc = oc0\<close> e p v by (simp add: nth_append)
        qed
      next
        case False
        then have "ex k \<noteq> int oc" using e by simp
        with t have t': "t < length (filter (\<lambda>i. ex i = int oc) [0..<k])" by simp
        with le [of oc] have "t < length (filter (\<lambda>i. ex i = int oc) [0..<n])" by linarith
        from disj [OF False this lt] have "sd oc + t \<noteq> ptrs oc0" by (simp add: p)
        then show ?thesis using v [OF t'] \<open>ex k \<noteq> int oc\<close> by simp
      qed
    qed
  qed
qed

lemma fill_exiles_slice:
  assumes disj: "\<And>oc oc' t t'. oc \<noteq> oc' \<Longrightarrow> t < length (filter (\<lambda>i. ex i = int oc) [0..<n])
          \<Longrightarrow> t' < length (filter (\<lambda>i. ex i = int oc') [0..<n]) \<Longrightarrow> sd oc + t \<noteq> sd oc' + t'"
  shows "slice (snd (fill_exiles n bs ex (sd, sb))) (sd oc) (length (filter (\<lambda>i. ex i = int oc) [0..<n]))
         = map bs (filter (\<lambda>i. ex i = int oc) [0..<n])"
proof -
  from fill_exiles_fold [of ex n sd n bs sb, OF disj] obtain ptrs sb' where
    f: "fill_exiles n bs ex (sd, sb) = (ptrs, sb')"
    and v: "\<And>oc t. t < length (filter (\<lambda>i. ex i = int oc) [0..<n]) \<Longrightarrow>
            sb' (sd oc + t) = bs (filter (\<lambda>i. ex i = int oc) [0..<n] ! t)"
    by blast
  show ?thesis
    by (rule nth_equalityI) (simp_all add: slice_def f v)
qed

lemma slice_blit_end: "slice (blit bl off a) 0 (off + length bl) = slice a 0 off @ bl"
  by (rule nth_equalityI) (auto simp: slice_def blit_def nth_append)

lemma alltoallv_fold:
  assumes "\<forall>s<k. rd s = (\<Sum>i<s. length (blk i))"
  shows "slice (fold (\<lambda>s rb. blit (blk s) (rd s) rb) [0..<k] rb0) 0 (\<Sum>i<k. length (blk i))
         = concat (map blk [0..<k])"
  using assms
proof (induction k)
  case 0
  show ?case by (simp add: slice_def)
next
  case (Suc k)
  then have IH: "slice (fold (\<lambda>s rb. blit (blk s) (rd s) rb) [0..<k] rb0) 0 (\<Sum>i<k. length (blk i))
         = concat (map blk [0..<k])"
    and rd: "rd k = (\<Sum>i<k. length (blk i))"
    by simp_all
  show ?case
    by (simp add: rd slice_blit_end IH)
qed

lemma keep_retained_value:
  "\<exists>rb'. keep_retained n bs ex (s, rb) = (s + length (filter (\<lambda>j. ex j < 0) [0..<n]), rb')
     \<and> slice rb' 0 (s + length (filter (\<lambda>j. ex j < 0) [0..<n]))
         = slice rb 0 s @ map bs (filter (\<lambda>j. ex j < 0) [0..<n])"
proof (induction n)
  case 0
  show ?case by (simp add: keep_retained_def)
next
  case (Suc n)
  then obtain rb' where k: "keep_retained n bs ex (s, rb) = (s + length (filter (\<lambda>j. ex j < 0) [0..<n]), rb')"
    and sl: "slice rb' 0 (s + length (filter (\<lambda>j. ex j < 0) [0..<n]))
         = slice rb 0 s @ map bs (filter (\<lambda>j. ex j < 0) [0..<n])"
    by blast
  have upd: "\<And>i b. slice (rb'(i := b)) 0 (Suc i) = slice rb' 0 i @ [b]"
    by (simp add: slice_def)
  show ?case
  proof (cases "ex n < 0")
    case True
    then have "keep_retained (Suc n) bs ex (s, rb) =
        (Suc (s + length (filter (\<lambda>j. ex j < 0) [0..<n])), rb'(s + length (filter (\<lambda>j. ex j < 0) [0..<n]) := bs n))"
      using k by (simp add: keep_retained_def)
    then show ?thesis using True sl by (simp add: upd)
  next
    case False
    then have "keep_retained (Suc n) bs ex (s, rb) = (s + length (filter (\<lambda>j. ex j < 0) [0..<n]), rb')"
      using k by (simp add: keep_retained_def)
    then show ?thesis using False sl by simp
  qed
qed

lemma update_loop_flags:
  assumes "foldE (update_body DT rnk n rb m) [0..<k] (bs, sc, ex) = Inr (bs', sc', ex')"
  shows "(\<forall>i<k. ex' i = (if get_octant_rank (x (bs' i)) = int rnk then - 1 else get_octant_rank (x (bs' i))))
       \<and> (\<forall>oc. sc' oc = sc oc + length (filter (\<lambda>i. ex' i = int oc) [0..<k]))"
  using assms
proof (induction k arbitrary: bs' sc' ex')
  case 0
  then show ?case by simp
next
  case (Suc k)
  from Suc.prems obtain s1 where 1: "foldE (update_body DT rnk n rb m) [0..<k] (bs, sc, ex) = Inr s1"
    and 2: "update_body DT rnk n rb m k s1 = Inr (bs', sc', ex')"
    by (rule foldE_upt_Suc_Inr)
  obtain bs1 sc1 ex1 where s1: "s1 = (bs1, sc1, ex1)" by (cases s1)
  from 2 [unfolded s1] obtain F b where bs': "bs' = bs1(k := b)"
    and ex': "ex' = ex1(k := (if get_octant_rank (x b) = int rnk then - 1 else get_octant_rank (x b)))"
    and sc': "sc' = (if get_octant_rank (x b) = int rnk then sc1
                else sc1(nat (get_octant_rank (x b)) := sc1 (nat (get_octant_rank (x b))) + 1))"
    by (rule update_body_Inr)
  from Suc.IH [OF 1 [unfolded s1]] have
    fl: "\<And>i. i < k \<Longrightarrow> ex1 i = (if get_octant_rank (x (bs1 i)) = int rnk then - 1 else get_octant_rank (x (bs1 i)))"
    and ct: "\<And>oc. sc1 oc = sc oc + length (filter (\<lambda>i. ex1 i = int oc) [0..<k])"
    by simp_all
  have same: "\<And>oc. filter (\<lambda>i. ex' i = int oc) [0..<k] = filter (\<lambda>i. ex1 i = int oc) [0..<k]"
    by (rule filter_cong) (simp_all add: ex')
  have rng: "0 \<le> get_octant_rank (x b)" using get_octant_rank_range by simp
  have "\<forall>i<Suc k. ex' i = (if get_octant_rank (x (bs' i)) = int rnk then - 1 else get_octant_rank (x (bs' i)))"
    using fl by (simp add: less_Suc_eq bs' ex')
  moreover have "\<forall>oc. sc' oc = sc oc + length (filter (\<lambda>i. ex' i = int oc) [0..<Suc k])"
  proof
    fix oc
    show "sc' oc = sc oc + length (filter (\<lambda>i. ex' i = int oc) [0..<Suc k])"
    proof (cases "get_octant_rank (x b) = int rnk")
      case True
      then have "ex' k = - 1" by (simp add: ex')
      then show ?thesis using True ct by (simp add: same sc')
    next
      case False
      then have k: "ex' k = get_octant_rank (x b)" by (simp add: ex')
      show ?thesis
      proof (cases "get_octant_rank (x b) = int oc")
        case True
        then have "nat (get_octant_rank (x b)) = oc" by simp
        then show ?thesis using False True k ct by (simp add: same sc')
      next
        case ne: False
        then have "nat (get_octant_rank (x b)) \<noteq> oc" using rng by auto
        then show ?thesis using False ne k ct by (simp add: same sc')
      qed
    qed
  qed
  ultimately show ?case by blast
qed

lemma mapE_Inr:
  assumes "mapE f as = Inr bs"
  shows "length bs = length as \<and> (\<forall>i<length as. f (as ! i) = Inr (bs ! i))"
  using assms
proof (induction as arbitrary: bs)
  case Nil
  then show ?case by simp
next
  case (Cons a as)
  then show ?case
    by (auto split: sum.splits simp: nth_Cons split: nat.splits)
qed

lemma ghost_prepare_keeps:
  assumes "ghost_prepare p = Inr p'"
  shows "rank p' = rank p \<and> n_body p' = n_body p"
  using assms
  by (auto simp: ghost_prepare_def Let_def split: sum.splits prod.splits)

lemma exchange_length: "length (exchange ps) = length ps"
  by (simp add: exchange_def)

lemma exchange_keeps:
  assumes "r < length ps"
  shows "rank (exchange ps ! r) = rank (ps ! r) \<and> n_body (exchange ps ! r) = n_body (ps ! r)
       \<and> bodies (exchange ps ! r) = bodies (ps ! r) \<and> exile (exchange ps ! r) = exile (ps ! r)"
  using assms
  by (simp add: exchange_def Let_def split: prod.splits)

lemma update_flagged:
  assumes "update DT p = Inr p'"
  shows "flagged p' \<and> rank p' = rank p \<and> n_body p' = n_body p"
proof -
  from assms obtain bs sc ex where
    u: "update_bodies DT (rank p) (n_body p) (recvbuf p) (sum_c p) (bodies p, \<lambda>_. 0, exile p) = Inr (bs, sc, ex)"
    and p': "p' = p\<lparr>bodies := bs, send_count := sc, exile := ex\<rparr>"
    by (auto simp: update_def split: sum.splits prod.splits)
  from update_loop_flags [OF u [unfolded update_bodies_def]]
  show ?thesis by (simp add: flagged_def p')
qed

lemma integration_phase_Inr:
  assumes "integration_phase DT ps = Inr ps1"
  shows "length ps1 = length ps
       \<and> (\<forall>r<length ps. flagged (ps1 ! r) \<and> rank (ps1 ! r) = rank (ps ! r) \<and> n_body (ps1 ! r) = n_body (ps ! r))"
proof -
  from assms obtain ps0 where g: "mapE ghost_prepare ps = Inr ps0"
    and u: "mapE (update DT) (exchange ps0) = Inr ps1"
    by (auto simp: integration_phase_def split: sum.splits)
  from mapE_Inr [OF g] have l0: "length ps0 = length ps"
    and g': "\<And>r. r < length ps \<Longrightarrow> ghost_prepare (ps ! r) = Inr (ps0 ! r)" by simp_all
  from mapE_Inr [OF u] have l1: "length ps1 = length ps"
    and u': "\<And>r. r < length ps \<Longrightarrow> update DT (exchange ps0 ! r) = Inr (ps1 ! r)"
    by (simp_all add: exchange_length l0)
  show ?thesis
  proof (intro conjI allI impI)
    show "length ps1 = length ps" by (rule l1)
  next
    fix r assume r: "r < length ps"
    from update_flagged [OF u' [OF r]] ghost_prepare_keeps [OF g' [OF r]] exchange_keeps [of r ps0] r l0
    show "flagged (ps1 ! r)" and "rank (ps1 ! r) = rank (ps ! r)" and "n_body (ps1 ! r) = n_body (ps ! r)"
      by simp_all
  qed
qed

lemma flagged_range:
  assumes "flagged p" and "i < n_body p" and "exile p i = int oc"
  shows "oc < NP"
proof -
  from assms(1,2) have "exile p i = - 1 \<or> exile p i = get_octant_rank (x (bodies p i))"
    by (simp add: flagged_def)
  with assms(3) get_octant_rank_range [of "x (bodies p i)"] show ?thesis by auto
qed

lemma flagged_positive_count:
  assumes "flagged p" and "t < length (filter (\<lambda>i. exile p i = int oc) [0..<n_body p])"
  shows "oc < NP"
proof -
  from assms(2) have "filter (\<lambda>i. exile p i = int oc) [0..<n_body p] \<noteq> []" by auto
  then obtain i where "i < n_body p" and "exile p i = int oc"
    by (auto simp: filter_empty_conv)
  with assms(1) show ?thesis by (rule flagged_range)
qed

lemma prefix_gap:
  fixes c :: "nat \<Rightarrow> nat"
  assumes "oc < oc'" and "t < c oc"
  shows "(\<Sum>i<oc. c i) + t < (\<Sum>i<oc'. c i) + t'"
proof -
  have "(\<Sum>i<Suc oc. c i) \<le> (\<Sum>i<oc'. c i)"
    using assms(1) by (intro sum_mono2) auto
  with assms(2) show ?thesis by simp
qed

lemma flagged_disjoint:
  assumes f: "flagged p" and ne: "oc \<noteq> oc'"
    and t: "t < length (filter (\<lambda>i. exile p i = int oc) [0..<n_body p])"
    and t': "t' < length (filter (\<lambda>i. exile p i = int oc') [0..<n_body p])"
  shows "fst (offsets (send_count p) d) oc + t \<noteq> fst (offsets (send_count p) d) oc' + t'"
proof -
  have oc: "oc < NP" and oc': "oc' < NP"
    using flagged_positive_count [OF f t] flagged_positive_count [OF f t'] by simp_all
  have c: "\<And>a. send_count p a = length (filter (\<lambda>i. exile p i = int a) [0..<n_body p])"
    using f by (simp add: flagged_def)
  from ne consider "oc < oc'" | "oc' < oc" by linarith
  then show ?thesis
  proof cases
    case 1
    from prefix_gap [OF 1, of t "send_count p" t'] t show ?thesis
      by (simp add: offsets_value oc oc' c)
  next
    case 2
    from prefix_gap [OF 2, of t' "send_count p" t] t' show ?thesis
      by (simp add: offsets_value oc oc' c)
  qed
qed

lemma migrate_prepare_keeps:
  "rank (migrate_prepare p) = rank p \<and> n_body (migrate_prepare p) = n_body p
   \<and> bodies (migrate_prepare p) = bodies p \<and> exile (migrate_prepare p) = exile p
   \<and> send_count (migrate_prepare p) = send_count p"
  by (simp add: migrate_prepare_def Let_def split: prod.splits)

lemma migrate_prepare_slice:
  assumes f: "flagged p"
  shows "slice (sendbuf (migrate_prepare p)) (send_displ (migrate_prepare p) r)
           (send_count (migrate_prepare p) r) = emigrants p r"
proof -
  obtain sd s where o: "offsets (send_count p) (send_displ p) = (sd, s)" by (cases "offsets (send_count p) (send_displ p)")
  have sd: "sd = fst (offsets (send_count p) (send_displ p))" by (simp add: o)
  have c: "send_count p r = length (filter (\<lambda>i. exile p i = int r) [0..<n_body p])"
    using f by (simp add: flagged_def)
  have "slice (snd (fill_exiles (n_body p) (bodies p) (exile p) (sd, sendbuf p))) (sd r)
          (length (filter (\<lambda>i. exile p i = int r) [0..<n_body p]))
        = map (bodies p) (filter (\<lambda>i. exile p i = int r) [0..<n_body p])"
    by (rule fill_exiles_slice) (simp add: sd flagged_disjoint [OF f])
  then show ?thesis
    by (cases "fill_exiles (n_body p) (bodies p) (exile p) (sd, sendbuf p)")
       (simp add: migrate_prepare_def o c emigrants_def)
qed

lemma exchange_recv:
  assumes len: "length ps = NP" and r: "r < NP" and rk: "rank (ps ! r) = r"
  shows "slice (recvbuf (exchange ps ! r)) 0 (sum_c (exchange ps ! r))
         = concat (map (\<lambda>s. slice (sendbuf (ps ! s)) (send_displ (ps ! s) r) (send_count (ps ! s) r)) [0..<NP])"
proof -
  let ?blk = "\<lambda>s. slice (sendbuf (ps ! s)) (send_displ (ps ! s) r) (send_count (ps ! s) r)"
  let ?rc = "MPI_Alltoall ps (ps ! r)"
  obtain rd sm where o: "offsets ?rc (recv_displ (ps ! r)) = (rd, sm)"
    by (cases "offsets ?rc (recv_displ (ps ! r))")
  have rc: "\<And>s. s < NP \<Longrightarrow> ?rc s = length (?blk s)"
    by (simp add: MPI_Alltoall_def len rk slice_def)
  have rd: "\<forall>s<NP. rd s = (\<Sum>i<s. length (?blk i))"
    using o rc by (auto simp: offsets_value)
  have sm: "sm = (\<Sum>i<NP. length (?blk i))"
    using o rc by (auto simp: offsets_value)
  have "exchange ps ! r =
      (ps ! r)\<lparr>recv_count := ?rc, recv_displ := rd, sum_c := sm,
                recvbuf := fold (\<lambda>s rb. blit (?blk s) (rd s) rb) [0..<NP] (recvbuf (ps ! r))\<rparr>"
    using r by (simp add: exchange_def len o MPI_Alltoallv_def rk)
  then show ?thesis
    using alltoallv_fold [OF rd, of "recvbuf (ps ! r)"] by (simp add: sm)
qed

lemma absorb_store:
  "local_store (absorb p) = slice (recvbuf p) 0 (sum_c p) @ retained p \<and> rank (absorb p) = rank p"
proof -
  from keep_retained_value [of "n_body p" "bodies p" "exile p" "sum_c p" "recvbuf p"]
  obtain rb' where k: "keep_retained (n_body p) (bodies p) (exile p) (sum_c p, recvbuf p)
        = (sum_c p + length (filter (\<lambda>j. exile p j < 0) [0..<n_body p]), rb')"
    and sl: "slice rb' 0 (sum_c p + length (filter (\<lambda>j. exile p j < 0) [0..<n_body p]))
         = slice (recvbuf p) 0 (sum_c p) @ map (bodies p) (filter (\<lambda>j. exile p j < 0) [0..<n_body p])"
    by blast
  have "local_store (absorb p) = slice rb' 0 (sum_c p + length (filter (\<lambda>j. exile p j < 0) [0..<n_body p]))"
    by (simp add: absorb_def k local_store_def slice_def)
  then show ?thesis by (simp add: sl retained_def absorb_def k)
qed

lemma by_rank_nth:
  assumes a: "by_rank ps" and r: "r < NP"
  shows "rank (ps ! r) = r"
proof -
  from a r have "r < length ps" by (simp add: by_rank_def)
  then have "rank (ps ! r) = map rank ps ! r" by simp
  also have "\<dots> = [0..<NP] ! r" using a by (simp add: by_rank_def)
  also have "\<dots> = r" using r by simp
  finally show ?thesis .
qed

lemma migration_round_store:
  assumes len: "length ps = NP" and rk: "\<forall>r<NP. rank (ps ! r) = r"
    and fl: "\<forall>r<NP. flagged (ps ! r)" and r: "r < NP"
  shows "local_store (migration_round ps ! r)
           = concat (map (\<lambda>s. emigrants (ps ! s) r) [0..<NP]) @ retained (ps ! r)
         \<and> rank (migration_round ps ! r) = r"
proof -
  let ?ps2 = "map migrate_prepare ps"
  have l2: "length ?ps2 = NP" by (simp add: len)
  have rk2: "rank (?ps2 ! r) = r" using r rk by (simp add: len migrate_prepare_keeps)
  have blk: "map (\<lambda>s. slice (sendbuf (?ps2 ! s)) (send_displ (?ps2 ! s) r) (send_count (?ps2 ! s) r)) [0..<NP]
           = map (\<lambda>s. emigrants (ps ! s) r) [0..<NP]"
    using fl by (intro map_cong) (simp_all add: len migrate_prepare_slice)
  have ret: "retained (exchange ?ps2 ! r) = retained (ps ! r)"
    using exchange_keeps [of r ?ps2] r by (simp add: retained_def len migrate_prepare_keeps)
  have rke: "rank (exchange ?ps2 ! r) = r"
    using exchange_keeps [of r ?ps2] r rk2 by (simp add: len)
  have "migration_round ps ! r = absorb (exchange ?ps2 ! r)"
    using r by (simp add: migration_round_def exchange_length len)
  then show ?thesis
    using absorb_store [of "exchange ?ps2 ! r"] exchange_recv [OF l2 r rk2]
    by (simp add: blk ret rke)
qed

lemma timestep_Inr:
  assumes br: "by_rank ps" and t: "timestep DT ps = Inr ps'"
  obtains ps1 where "integration_phase DT ps = Inr ps1" and "ps' = migration_round ps1"
    and "length ps1 = NP" and "\<forall>r<NP. rank (ps1 ! r) = r" and "\<forall>r<NP. flagged (ps1 ! r)"
    and "\<forall>r<NP. n_body (ps1 ! r) = n_body (ps ! r)"
proof -
  from t obtain ps1 where i: "integration_phase DT ps = Inr ps1" and m: "ps' = migration_round ps1"
    by (auto simp: timestep_def split: sum.splits)
  have len: "length ps = NP" using br by (simp add: by_rank_def)
  from integration_phase_Inr [OF i] by_rank_nth [OF br] len
  have "length ps1 = NP" and "\<forall>r<NP. rank (ps1 ! r) = r" and "\<forall>r<NP. flagged (ps1 ! r)"
    and "\<forall>r<NP. n_body (ps1 ! r) = n_body (ps ! r)"
    by simp_all
  with i m that show ?thesis by blast
qed

lemma emigrant_octant:
  assumes f: "flagged p" and b: "b \<in> set (emigrants p r)"
  shows "get_octant_rank (x b) = int r \<and> r \<noteq> rank p"
proof -
  from b obtain i where i: "i < n_body p" and e: "exile p i = int r" and bi: "b = bodies p i"
    by (auto simp: emigrants_def)
  from f i have "exile p i = (if get_octant_rank (x (bodies p i)) = int (rank p) then - 1
           else get_octant_rank (x (bodies p i)))"
    by (simp add: flagged_def)
  with e bi show ?thesis by (auto split: if_splits)
qed

lemma retained_octant:
  assumes f: "flagged p" and b: "b \<in> set (retained p)"
  shows "get_octant_rank (x b) = int (rank p)"
proof -
  from b obtain i where i: "i < n_body p" and e: "exile p i < 0" and bi: "b = bodies p i"
    by (auto simp: retained_def)
  from f i have "exile p i = (if get_octant_rank (x (bodies p i)) = int (rank p) then - 1
           else get_octant_rank (x (bodies p i)))"
    by (simp add: flagged_def)
  with e bi get_octant_rank_range [of "x b"] show ?thesis by (auto split: if_splits)
qed

text \<open>
  C2. After a timestep, and so immediately after its migration round, every body in the
  store of a process lies in the octant of that process: the octant of its position is
  the rank of the process.
\<close>

theorem migration_owner_is_octant:
  assumes br: "by_rank ps" and t: "timestep DT ps = Inr ps'"
  shows "\<forall>r<NP. rank (ps' ! r) = r
            \<and> (\<forall>b\<in>set (local_store (ps' ! r)). get_octant_rank (x b) = int r)"
proof (intro allI impI)
  fix r assume r: "r < NP"
  from br t obtain ps1 where m: "ps' = migration_round ps1"
    and len: "length ps1 = NP" and rk: "\<forall>r<NP. rank (ps1 ! r) = r" and fl: "\<forall>r<NP. flagged (ps1 ! r)"
    by (rule timestep_Inr)
  from migration_round_store [OF len rk fl r]
  have st: "local_store (ps' ! r) = concat (map (\<lambda>s. emigrants (ps1 ! s) r) [0..<NP]) @ retained (ps1 ! r)"
    and rr: "rank (ps' ! r) = r"
    by (simp_all add: m)
  have "\<forall>b\<in>set (local_store (ps' ! r)). get_octant_rank (x b) = int r"
  proof
    fix b assume "b \<in> set (local_store (ps' ! r))"
    then consider s where "s < NP" and "b \<in> set (emigrants (ps1 ! s) r)" | "b \<in> set (retained (ps1 ! r))"
      by (auto simp: st)
    then show "get_octant_rank (x b) = int r"
    proof cases
      case 1
      with fl emigrant_octant [of "ps1 ! s" b r] show ?thesis by simp
    next
      case 2
      with fl r rk retained_octant [of "ps1 ! r" b] show ?thesis by simp
    qed
  qed
  with rr show "rank (ps' ! r) = r \<and> (\<forall>b\<in>set (local_store (ps' ! r)). get_octant_rank (x b) = int r)"
    by simp
qed

lemma partition_by_flag:
  assumes "\<forall>i\<in>set L. e i < 0 \<or> (\<exists>oc<NP. e i = int oc)"
  shows "mset (map f (filter (\<lambda>i. e i < 0) L)) + (\<Sum>r<NP. mset (map f (filter (\<lambda>i. e i = int r) L)))
         = mset (map f L)"
  using assms
proof (induction L)
  case Nil
  show ?case by simp
next
  case (Cons a L)
  then have IH: "mset (map f (filter (\<lambda>i. e i < 0) L)) + (\<Sum>r<NP. mset (map f (filter (\<lambda>i. e i = int r) L)))
         = mset (map f L)"
    by simp
  from Cons.prems consider "e a < 0" | oc where "oc < NP" and "e a = int oc" by auto
  then show ?case
  proof cases
    case 1
    then have "\<And>r. e a \<noteq> int r" by auto
    with 1 IH show ?thesis by simp
  next
    case 2
    have "(\<Sum>r<NP. mset (map f (filter (\<lambda>i. e i = int r) (a # L))))
        = (\<Sum>r<NP. (if r = oc then {#f a#} else {#}) + mset (map f (filter (\<lambda>i. e i = int r) L)))"
      by (rule sum.cong) (auto simp: 2)
    also have "\<dots> = {#f a#} + (\<Sum>r<NP. mset (map f (filter (\<lambda>i. e i = int r) L)))"
      using 2 by (simp add: sum.distrib)
    finally show ?thesis using 2 IH by simp
  qed
qed

lemma flagged_partition:
  assumes f: "flagged p"
  shows "mset (retained p) + (\<Sum>r<NP. mset (emigrants p r)) = mset (local_store p)"
proof -
  have "\<forall>i\<in>set [0..<n_body p]. exile p i < 0 \<or> (\<exists>oc<NP. exile p i = int oc)"
  proof
    fix i assume "i \<in> set [0..<n_body p]"
    then have i: "i < n_body p" by simp
    with f have e: "exile p i = - 1 \<or> exile p i = get_octant_rank (x (bodies p i))"
      by (simp add: flagged_def)
    from get_octant_rank_range [of "x (bodies p i)"]
    have "\<exists>oc<NP. get_octant_rank (x (bodies p i)) = int oc"
      by (intro exI [of _ "nat (get_octant_rank (x (bodies p i)))"]) auto
    with e show "exile p i < 0 \<or> (\<exists>oc<NP. exile p i = int oc)" by auto
  qed
  from partition_by_flag [OF this, of "bodies p"] show ?thesis
    by (simp add: retained_def emigrants_def local_store_def)
qed

lemma mset_concat_upt: "mset (concat (map g [0..<n])) = (\<Sum>s<n. mset (g s))"
  by (induction n) simp_all

lemma size_sum_lessThan: "size (\<Sum>r<(n :: nat). (M r :: 'a multiset)) = (\<Sum>r<n. size (M r))"
  by (induction n) simp_all

lemma migration_round_mset:
  assumes len: "length ps = NP" and rk: "\<forall>r<NP. rank (ps ! r) = r" and fl: "\<forall>r<NP. flagged (ps ! r)"
  shows "(\<Sum>r<NP. mset (local_store (migration_round ps ! r))) = (\<Sum>r<NP. mset (local_store (ps ! r)))"
proof -
  have "(\<Sum>r<NP. mset (local_store (migration_round ps ! r)))
      = (\<Sum>r<NP. (\<Sum>s<NP. mset (emigrants (ps ! s) r)) + mset (retained (ps ! r)))"
    by (rule sum.cong) (simp_all add: migration_round_store [OF len rk fl] mset_concat_upt)
  also have "\<dots> = (\<Sum>r<NP. \<Sum>s<NP. mset (emigrants (ps ! s) r)) + (\<Sum>r<NP. mset (retained (ps ! r)))"
    by (simp add: sum.distrib)
  also have "(\<Sum>r<NP. \<Sum>s<NP. mset (emigrants (ps ! s) r)) = (\<Sum>s<NP. \<Sum>r<NP. mset (emigrants (ps ! s) r))"
    by (rule sum.swap)
  also have "(\<Sum>s<NP. \<Sum>r<NP. mset (emigrants (ps ! s) r)) + (\<Sum>r<NP. mset (retained (ps ! r)))
      = (\<Sum>s<NP. mset (retained (ps ! s)) + (\<Sum>r<NP. mset (emigrants (ps ! s) r)))"
    by (simp add: sum.distrib add.commute)
  also have "\<dots> = (\<Sum>s<NP. mset (local_store (ps ! s)))"
    using fl by (intro sum.cong) (simp_all add: flagged_partition)
  finally show ?thesis .
qed

lemma size_local_store: "length (local_store p) = n_body p"
  by (simp add: local_store_def)

lemma ex_by_rank: "by_rank example_procs"
  by (simp add: by_rank_def example_procs_def comp_def)

lemma ex_nth:
  "r < NP \<Longrightarrow> example_procs ! r =
      \<lparr>rank = r, n_body = (if r = 7 then 2 else 0),
               bodies = (\<lambda>i. if i = 0 then \<lparr>mass = 1, x = Vec3 1 1 1, v = Vec3 (- 2) 0 0\<rparr>
                              else \<lparr>mass = 1, x = Vec3 7 1 1, v = Vec3 0 0 0\<rparr>),
               transmit = (\<lambda>_. 0), exile = (\<lambda>_. 0),
               send_count = (\<lambda>_. 0), send_displ = (\<lambda>_. 0),
               recv_count = (\<lambda>_. 0), recv_displ = (\<lambda>_. 0),
               sendbuf = (\<lambda>_. zero_centroid), recvbuf = (\<lambda>_. zero_centroid), sum_c = 0\<rparr>"
  by (simp add: example_procs_def)

lemma ss0: "shouldSend (Vec3 1 1 1) t = Inr (t(0 := 1, 1 := 1, 2 := 1, 3 := 1, 4 := 1, 5 := 1, 6 := 1, 7 := 0))"
  by (simp add: shouldSend_def upt_NP boundary_dist_def upt_N_DIM octant_dims_def pow_2
        abs_int_def EPSILON_def CUTOFF_SQR_def)

lemma ss1: "shouldSend (Vec3 7 1 1) t = Inr (t(0 := 0, 1 := 1, 2 := 0, 3 := 1, 4 := 0, 5 := 1, 6 := 0, 7 := 0))"
  by (simp add: shouldSend_def upt_NP boundary_dist_def upt_N_DIM octant_dims_def pow_2
        abs_int_def EPSILON_def CUTOFF_SQR_def)

lemma cs7: "\<exists>t c. count_sends 2 (bodies (example_procs ! 7)) (t0, \<lambda>_. 0) = Inr (t, c) \<and> c 7 = 0"
  by (simp add: ex_nth NP_def count_sends_def upt_2 ss0 ss1 upt_NP [unfolded NP_def])


lemma mapE_success:
  assumes "\<forall>i<length as. f (as ! i) = Inr (g i)"
  shows "mapE f as = Inr (map g [0..<length as])"
  using assms
proof (induction as arbitrary: g)
  case Nil
  show ?case by simp
next
  case (Cons a as)
  from Cons.prems have a: "f a = Inr (g 0)" by auto
  from Cons.prems have "\<forall>i<length as. f (as ! i) = Inr ((g \<circ> Suc) i)" by auto
  from Cons.IH [OF this] have "mapE f as = Inr (map (g \<circ> Suc) [0..<length as])" .
  then show ?case
    by (simp add: a upt_conv_Cons map_Suc_upt [symmetric] del: upt_Suc)
qed

lemma mapE_exists:
  assumes "\<forall>i<length as. \<exists>b. f (as ! i) = Inr b"
  obtains bs where "mapE f as = Inr bs"
proof -
  from assms have "\<forall>i<length as. f (as ! i) = Inr (projr (f (as ! i)))" by auto
  from mapE_success [OF this] that show ?thesis by blast
qed

lemma ghost_prepare_bodies:
  assumes "ghost_prepare p = Inr p'"
  shows "bodies p' = bodies p"
  using assms
  by (auto simp: ghost_prepare_def Let_def split: sum.splits prod.splits)

lemma ghost_prepare_send_count:
  assumes "count_sends (n_body p) (bodies p) (transmit p, \<lambda>_. 0) = Inr (t, c)"
    and "ghost_prepare p = Inr p'"
  shows "send_count p' = c"
  using assms
  by (auto simp: ghost_prepare_def Let_def split: sum.splits prod.splits)

lemma ghost_prepare_empty:
  assumes "n_body p = 0"
  shows "\<exists>p'. ghost_prepare p = Inr p' \<and> send_count p' = (\<lambda>_. 0)"
  using assms
  by (simp add: ghost_prepare_def count_sends_def fill_sends_def split: prod.splits)

lemma exchange_sum:
  assumes len: "length ps = NP" and r: "r < NP" and rk: "rank (ps ! r) = r"
  shows "sum_c (exchange ps ! r) = (\<Sum>s<NP. send_count (ps ! s) r)"
proof -
  have "sum_c (exchange ps ! r) = (\<Sum>s<NP. MPI_Alltoall ps (ps ! r) s)"
    using r by (simp add: exchange_def len offsets_value Let_def split: prod.splits)
  also have "\<dots> = (\<Sum>s<NP. send_count (ps ! s) r)"
    by (rule sum.cong) (simp_all add: MPI_Alltoall_def len rk)
  finally show ?thesis .
qed

lemma update_empty:
  assumes "n_body p = 0"
  shows "\<exists>p'. update DT p = Inr p' \<and> n_body p' = 0"
  using assms by (simp add: update_def update_bodies_def)

lemma ex_update7:
  "update_bodies 1 7 2 rb 0
      (\<lambda>i. if i = 0 then \<lparr>mass = 1, x = Vec3 1 1 1, v = Vec3 (- 2) 0 0\<rparr>
            else \<lparr>mass = 1, x = Vec3 7 1 1, v = Vec3 0 0 0\<rparr>, \<lambda>_. 0, ex) =
    Inr ((\<lambda>i. if i = 0 then \<lparr>mass = 1, x = Vec3 1 1 1, v = Vec3 (- 2) 0 0\<rparr>
            else \<lparr>mass = 1, x = Vec3 7 1 1, v = Vec3 0 0 0\<rparr>)
           (0 := \<lparr>mass = 1, x = Vec3 (- 1) 1 1, v = Vec3 (- 2) 0 0\<rparr>,
            1 := \<lparr>mass = 1, x = Vec3 7 1 1, v = Vec3 0 0 0\<rparr>),
         (\<lambda>_. 0)(6 := 1), ex(0 := 6, 1 := - 1))"
  by (simp add: eval_defs upt_2)


lemma ex_integration:
  obtains ps1 where "integration_phase 1 example_procs = Inr ps1"
    and "\<forall>r<NP. n_body (ps1 ! r) = (if r = 7 then 2 else 0)"
    and "bodies (ps1 ! 7) 0 = \<lparr>mass = 1, x = Vec3 (- 1) 1 1, v = Vec3 (- 2) 0 0\<rparr>"
    and "bodies (ps1 ! 7) 1 = \<lparr>mass = 1, x = Vec3 7 1 1, v = Vec3 0 0 0\<rparr>"
    and "exile (ps1 ! 7) 0 = 6" and "exile (ps1 ! 7) 1 = - 1"
proof -
  have len: "length example_procs = NP" by (simp add: example_procs_def)
  have seven: "7 < NP" by (simp add: NP_def)
  \<comment> \<open>what each process sends as ghosts\<close>
  have g: "\<forall>r<length example_procs. \<exists>p'. ghost_prepare (example_procs ! r) = Inr p'"
  proof (intro allI impI)
    fix r assume r: "r < length example_procs"
    show "\<exists>p'. ghost_prepare (example_procs ! r) = Inr p'"
    proof (cases "r = 7")
      case True
      show ?thesis
        by (simp add: True ex_nth seven ghost_prepare_def count_sends_def fill_sends_def upt_2 ss0 ss1
              upt_NP offsets_def split: prod.splits)
    next
      case False
      with r len have "n_body (example_procs ! r) = 0" by (simp add: ex_nth)
      from ghost_prepare_empty [OF this] show ?thesis by blast
    qed
  qed
  then obtain psg where psg: "mapE ghost_prepare example_procs = Inr psg" by (rule mapE_exists)
  from mapE_Inr [OF psg] len have lg: "length psg = NP"
    and gp: "\<And>r. r < NP \<Longrightarrow> ghost_prepare (example_procs ! r) = Inr (psg ! r)"
    by simp_all
  have keep: "\<And>r. r < NP \<Longrightarrow> rank (psg ! r) = r \<and> n_body (psg ! r) = (if r = 7 then 2 else 0)
       \<and> bodies (psg ! r) = bodies (example_procs ! r)"
    using ghost_prepare_keeps [OF gp] ghost_prepare_bodies [OF gp] by (simp add: ex_nth)
  have sc7: "\<And>s. s < NP \<Longrightarrow> send_count (psg ! s) 7 = 0"
  proof -
    fix s assume s: "s < NP"
    show "send_count (psg ! s) 7 = 0"
    proof (cases "s = 7")
      case True
      from cs7 [of "transmit (example_procs ! 7)"] obtain t c
        where "count_sends 2 (bodies (example_procs ! 7)) (transmit (example_procs ! 7), \<lambda>_. 0) = Inr (t, c)"
          and c: "c 7 = 0"
        by blast
      then have "count_sends (n_body (example_procs ! 7)) (bodies (example_procs ! 7))
            (transmit (example_procs ! 7), \<lambda>_. 0) = Inr (t, c)"
        by (simp add: ex_nth seven)
      from ghost_prepare_send_count [OF this gp [OF seven]] c show ?thesis by (simp add: True)
    next
      case False
      with s have "n_body (example_procs ! s) = 0" by (simp add: ex_nth)
      from ghost_prepare_empty [OF this] gp [OF s] show ?thesis by auto
    qed
  qed
  \<comment> \<open>the ghost exchange: process 7 receives nothing\<close>
  let ?e = "exchange psg"
  have le: "length ?e = NP" by (simp add: exchange_length lg)
  have ek: "\<And>r. r < NP \<Longrightarrow> rank (?e ! r) = r \<and> n_body (?e ! r) = (if r = 7 then 2 else 0)
       \<and> bodies (?e ! r) = bodies (example_procs ! r)"
    using exchange_keeps [of _ psg] keep by (simp add: lg)
  have s7: "sum_c (?e ! 7) = 0"
    using exchange_sum [OF lg seven] keep [OF seven] sc7 by simp
  \<comment> \<open>the integration\<close>
  have u7: "update 1 (?e ! 7) =
      Inr ((?e ! 7)\<lparr>bodies := (bodies (example_procs ! 7))
                (0 := \<lparr>mass = 1, x = Vec3 (- 1) 1 1, v = Vec3 (- 2) 0 0\<rparr>,
                 1 := \<lparr>mass = 1, x = Vec3 7 1 1, v = Vec3 0 0 0\<rparr>),
              send_count := (\<lambda>_. 0)(6 := 1), exile := (exile (?e ! 7))(0 := 6, 1 := - 1)\<rparr>)"
    using ek [OF seven] by (simp add: update_def s7 ex_nth seven ex_update7)
  have u: "\<forall>r<length ?e. \<exists>p'. update 1 (?e ! r) = Inr p'"
  proof (intro allI impI)
    fix r assume r: "r < length ?e"
    show "\<exists>p'. update 1 (?e ! r) = Inr p'"
    proof (cases "r = 7")
      case True
      with u7 show ?thesis by simp
    next
      case False
      with r le ek [of r] have "n_body (?e ! r) = 0" by simp
      from update_empty [OF this] show ?thesis by blast
    qed
  qed
  then obtain ps1 where ps1: "mapE (update 1) ?e = Inr ps1" by (rule mapE_exists)
  from mapE_Inr [OF ps1] le have up: "\<And>r. r < NP \<Longrightarrow> update 1 (?e ! r) = Inr (ps1 ! r)"
    by simp_all
  have ip: "integration_phase 1 example_procs = Inr ps1"
    by (simp add: integration_phase_def psg ps1)
  have nb: "\<forall>r<NP. n_body (ps1 ! r) = (if r = 7 then 2 else 0)"
    using update_flagged [OF up] ek by simp
  from up [OF seven] u7 have p7: "ps1 ! 7 = (?e ! 7)\<lparr>bodies := (bodies (example_procs ! 7))
                (0 := \<lparr>mass = 1, x = Vec3 (- 1) 1 1, v = Vec3 (- 2) 0 0\<rparr>,
                 1 := \<lparr>mass = 1, x = Vec3 7 1 1, v = Vec3 0 0 0\<rparr>),
              send_count := (\<lambda>_. 0)(6 := 1), exile := (exile (?e ! 7))(0 := 6, 1 := - 1)\<rparr>"
    by simp
  show ?thesis
    by (rule that [OF ip nb]) (simp_all add: p7)
qed

lemma ex_store1:
  assumes nb: "\<forall>r<NP. n_body (ps1 ! r) = (if r = 7 then 2 else 0)"
    and b0: "bodies (ps1 ! 7) 0 = \<lparr>mass = 1, x = Vec3 (- 1) 1 1, v = Vec3 (- 2) 0 0\<rparr>"
    and b1: "bodies (ps1 ! 7) 1 = \<lparr>mass = 1, x = Vec3 7 1 1, v = Vec3 0 0 0\<rparr>"
    and r: "r < NP"
  shows "local_store (ps1 ! r) =
     (if r = 7 then [\<lparr>mass = 1, x = Vec3 (- 1) 1 1, v = Vec3 (- 2) 0 0\<rparr>,
                     \<lparr>mass = 1, x = Vec3 7 1 1, v = Vec3 0 0 0\<rparr>] else [])"
  using nb r b0 b1 by (simp add: local_store_def upt_2)

theorem migration_owner_is_octant_witness:
  "\<exists>ps'. timestep 1 example_procs = Inr ps'
      \<and> local_store (ps' ! 6) = [\<lparr>mass = 1, x = Vec3 (- 1) 1 1, v = Vec3 (- 2) 0 0\<rparr>]
      \<and> local_store (ps' ! 7) = [\<lparr>mass = 1, x = Vec3 7 1 1, v = Vec3 0 0 0\<rparr>]
      \<and> get_octant_rank (Vec3 (- 1) 1 1) = 6 \<and> get_octant_rank (Vec3 7 1 1) = 7"
proof -
  obtain ps1 where ip: "integration_phase 1 example_procs = Inr ps1"
    and nb: "\<forall>r<NP. n_body (ps1 ! r) = (if r = 7 then 2 else 0)"
    and b0: "bodies (ps1 ! 7) 0 = \<lparr>mass = 1, x = Vec3 (- 1) 1 1, v = Vec3 (- 2) 0 0\<rparr>"
    and b1: "bodies (ps1 ! 7) 1 = \<lparr>mass = 1, x = Vec3 7 1 1, v = Vec3 0 0 0\<rparr>"
    and e0: "exile (ps1 ! 7) 0 = 6" and e1: "exile (ps1 ! 7) 1 = - 1"
    by (rule ex_integration)
  have ts: "timestep 1 example_procs = Inr (migration_round ps1)"
    by (simp add: timestep_def ip)
  from ex_by_rank ts obtain ps1' where "integration_phase 1 example_procs = Inr ps1'"
    and len': "length ps1' = NP" and rk': "\<forall>r<NP. rank (ps1' ! r) = r" and fl': "\<forall>r<NP. flagged (ps1' ! r)"
    by (rule timestep_Inr)
  with ip have len: "length ps1 = NP" and rk: "\<forall>r<NP. rank (ps1 ! r) = r" and fl: "\<forall>r<NP. flagged (ps1 ! r)"
    by simp_all
  have em: "\<And>s r. s < NP \<Longrightarrow> emigrants (ps1 ! s) r =
      (if s = 7 \<and> r = 6 then [\<lparr>mass = 1, x = Vec3 (- 1) 1 1, v = Vec3 (- 2) 0 0\<rparr>] else [])"
    using nb b0 e0 e1 by (simp add: emigrants_def upt_2)
  have re: "\<And>r. r < NP \<Longrightarrow> retained (ps1 ! r) =
      (if r = 7 then [\<lparr>mass = 1, x = Vec3 7 1 1, v = Vec3 0 0 0\<rparr>] else [])"
    using nb b1 e0 e1 by (simp add: retained_def upt_2)
  have six: "6 < NP" and seven: "7 < NP" by (simp_all add: NP_def)
  have s6: "local_store (migration_round ps1 ! 6) = [\<lparr>mass = 1, x = Vec3 (- 1) 1 1, v = Vec3 (- 2) 0 0\<rparr>]"
    using migration_round_store [OF len rk fl six] em re [OF six]
    by (simp add: upt_NP) (simp add: NP_def)
  have s7: "local_store (migration_round ps1 ! 7) = [\<lparr>mass = 1, x = Vec3 7 1 1, v = Vec3 0 0 0\<rparr>]"
    using migration_round_store [OF len rk fl seven] em re [OF seven]
    by (simp add: upt_NP) (simp add: NP_def)
  from migration_owner_is_octant [OF ex_by_rank ts] six seven s6 s7
  have "get_octant_rank (Vec3 (- 1) 1 1) = 6 \<and> get_octant_rank (Vec3 7 1 1) = 7"
    by fastforce
  with ts s6 s7 show ?thesis by blast
qed

lemma migration_round_length: "length (migration_round ps) = length ps"
  by (simp add: migration_round_def exchange_length)

lemma timestep_by_rank:
  assumes br: "by_rank ps" and t: "timestep DT ps = Inr ps'"
  shows "by_rank ps'"
proof -
  from br t obtain ps1 where m: "ps' = migration_round ps1"
    and len: "length ps1 = NP" and rk: "\<forall>r<NP. rank (ps1 ! r) = r" and fl: "\<forall>r<NP. flagged (ps1 ! r)"
    by (rule timestep_Inr)
  have l: "length (migration_round ps1) = NP" by (simp add: migration_round_length len)
  have "map rank (migration_round ps1) = [0..<NP]"
    by (rule nth_equalityI) (simp_all add: l migration_round_store [OF len rk fl])
  with l show ?thesis by (simp add: by_rank_def m)
qed

lemma timestep_count:
  assumes br: "by_rank ps" and t: "timestep DT ps = Inr ps'"
  shows "(\<Sum>r<NP. n_body (ps' ! r)) = (\<Sum>r<NP. n_body (ps ! r))"
proof -
  from br t obtain ps1 where m: "ps' = migration_round ps1"
    and len: "length ps1 = NP" and rk: "\<forall>r<NP. rank (ps1 ! r) = r" and fl: "\<forall>r<NP. flagged (ps1 ! r)"
    and nb: "\<forall>r<NP. n_body (ps1 ! r) = n_body (ps ! r)"
    by (rule timestep_Inr)
  have "(\<Sum>r<NP. n_body (ps' ! r)) = size (\<Sum>r<NP. mset (local_store (ps' ! r)))"
    by (simp add: size_sum_lessThan size_local_store)
  also have "\<dots> = (\<Sum>r<NP. n_body (ps1 ! r))"
    by (simp add: m migration_round_mset [OF len rk fl] size_sum_lessThan size_local_store)
  also have "\<dots> = (\<Sum>r<NP. n_body (ps ! r))"
    using nb by (intro sum.cong) simp_all
  finally show ?thesis .
qed

lemma run_invariant:
  assumes "by_rank ps" and "run K DT ps = Inr ps'"
  shows "by_rank ps' \<and> (\<Sum>r<NP. n_body (ps' ! r)) = (\<Sum>r<NP. n_body (ps ! r))"
  using assms
proof (induction K arbitrary: ps)
  case 0
  then show ?case by simp
next
  case (Suc K)
  from Suc.prems(2) obtain ps1 where t: "timestep DT ps = Inr ps1" and r: "run K DT ps1 = Inr ps'"
    by (auto split: sum.splits)
  from Suc.IH [OF timestep_by_rank [OF Suc.prems(1) t] r] timestep_count [OF Suc.prems(1) t]
  show ?case by simp
qed

text \<open>
  C3. In every timestep of a run the migration round preserves the bodies: the new store
  of a process is the bodies flagged for it by each process, followed by its own bodies
  that were not flagged; the store of each process before the round is split into the
  bodies it keeps and the bodies it exports to each other octant, none to itself; the
  multiset of all bodies is the same before and after the round; and the total number of
  bodies after the round is the total at the start of the run.
\<close>

theorem migration_preserves_bodies:
  assumes br: "by_rank ps0" and run: "run t DT ps0 = Inr ps" and t: "timestep DT ps = Inr ps'"
  shows "\<exists>ps1. integration_phase DT ps = Inr ps1 \<and> ps' = migration_round ps1
      \<and> (\<forall>r<NP. local_store (ps' ! r)
             = concat (map (\<lambda>s. emigrants (ps1 ! s) r) [0..<NP]) @ retained (ps1 ! r))
      \<and> (\<forall>s<NP. mset (local_store (ps1 ! s))
             = mset (retained (ps1 ! s)) + (\<Sum>r<NP. mset (emigrants (ps1 ! s) r))
           \<and> emigrants (ps1 ! s) s = [])
      \<and> (\<Sum>r<NP. mset (local_store (ps' ! r))) = (\<Sum>r<NP. mset (local_store (ps1 ! r)))
      \<and> (\<Sum>r<NP. n_body (ps' ! r)) = (\<Sum>r<NP. n_body (ps0 ! r))"
proof -
  from run_invariant [OF br run] have brt: "by_rank ps"
    and c0: "(\<Sum>r<NP. n_body (ps ! r)) = (\<Sum>r<NP. n_body (ps0 ! r))" by simp_all
  from brt t obtain ps1 where i: "integration_phase DT ps = Inr ps1" and m: "ps' = migration_round ps1"
    and len: "length ps1 = NP" and rk: "\<forall>r<NP. rank (ps1 ! r) = r" and fl: "\<forall>r<NP. flagged (ps1 ! r)"
    by (rule timestep_Inr)
  have st: "\<forall>r<NP. local_store (ps' ! r)
             = concat (map (\<lambda>s. emigrants (ps1 ! s) r) [0..<NP]) @ retained (ps1 ! r)"
    using migration_round_store [OF len rk fl] by (simp add: m)
  have self: "\<forall>s<NP. emigrants (ps1 ! s) s = []"
  proof (intro allI impI)
    fix s assume s: "s < NP"
    show "emigrants (ps1 ! s) s = []"
    proof (rule ccontr)
      assume "emigrants (ps1 ! s) s \<noteq> []"
      then obtain b where "b \<in> set (emigrants (ps1 ! s) s)" by (cases "emigrants (ps1 ! s) s") auto
      with emigrant_octant [of "ps1 ! s" b s] fl rk s show False by simp
    qed
  qed
  have ms: "(\<Sum>r<NP. mset (local_store (ps' ! r))) = (\<Sum>r<NP. mset (local_store (ps1 ! r)))"
    unfolding m by (rule migration_round_mset [OF len rk fl])
  have cnt: "(\<Sum>r<NP. n_body (ps' ! r)) = (\<Sum>r<NP. n_body (ps0 ! r))"
    using timestep_count [OF brt t] c0 by simp
  from i m st self ms cnt fl show ?thesis
    by (intro exI [of _ ps1]) (simp add: flagged_partition)
qed

theorem migration_preserves_bodies_witness:
  "\<exists>ps'. timestep 1 example_procs = Inr ps'
      \<and> (\<Sum>r<NP. mset (local_store (ps' ! r)))
          = {#\<lparr>mass = 1, x = Vec3 (- 1) 1 1, v = Vec3 (- 2) 0 0\<rparr>,
              \<lparr>mass = 1, x = Vec3 7 1 1, v = Vec3 0 0 0\<rparr>#}
      \<and> (\<Sum>r<NP. n_body (ps' ! r)) = 2"
proof -
  obtain ps1 where ip: "integration_phase 1 example_procs = Inr ps1"
    and nb: "\<forall>r<NP. n_body (ps1 ! r) = (if r = 7 then 2 else 0)"
    and b0: "bodies (ps1 ! 7) 0 = \<lparr>mass = 1, x = Vec3 (- 1) 1 1, v = Vec3 (- 2) 0 0\<rparr>"
    and b1: "bodies (ps1 ! 7) 1 = \<lparr>mass = 1, x = Vec3 7 1 1, v = Vec3 0 0 0\<rparr>"
    by (rule ex_integration)
  have ts: "timestep 1 example_procs = Inr (migration_round ps1)"
    by (simp add: timestep_def ip)
  have r0: "run 0 1 example_procs = Inr example_procs" by simp
  have seven: "7 < NP" by (simp add: NP_def)
  have st: "(\<Sum>r<NP. mset (local_store (ps1 ! r)))
      = (\<Sum>r<NP. if r = 7 then {#\<lparr>mass = 1, x = Vec3 (- 1) 1 1, v = Vec3 (- 2) 0 0\<rparr>,
              \<lparr>mass = 1, x = Vec3 7 1 1, v = Vec3 0 0 0\<rparr>#} else {#})"
    by (rule sum.cong) (simp_all add: ex_store1 [OF nb b0 b1])
  have n0: "(\<Sum>r<NP. n_body (example_procs ! r)) = (\<Sum>r<NP. if r = 7 then 2 else 0)"
    by (rule sum.cong) (simp_all add: ex_nth)
  from migration_preserves_bodies [OF ex_by_rank r0 ts] ip
  have "(\<Sum>r<NP. mset (local_store (migration_round ps1 ! r))) = (\<Sum>r<NP. mset (local_store (ps1 ! r)))"
    and "(\<Sum>r<NP. n_body (migration_round ps1 ! r)) = (\<Sum>r<NP. n_body (example_procs ! r))"
    by auto
  with ts st n0 seven show ?thesis by (simp add: sum.delta)
qed

end
